theory Spec2Isabelle
  imports Complex_Main "HOL-Library.Multiset" "HOL-Library.AList"
    "HOL-Library.Char_ord" "HOL-Library.List_Lexorder" "HOL-Library.Sublist"
begin

section \<open>Data model of the duplicate detector\<close>

text \<open>
  The embedding follows \<^verbatim>\<open>background/duplicate-detector.js\<close>.  JavaScript values are
  modelled as follows.
  \<^item> Strings are \<^typ>\<open>string\<close>; \<^verbatim>\<open>s.length\<close> is \<^const>\<open>length\<close>.
  \<^item> An optional property is an \<^typ>\<open>'a option\<close>; \<^verbatim>\<open>undefined\<close> and \<^verbatim>\<open>null\<close> are
    \<^const>\<open>None\<close>.  The truthiness test of the source is written out at every use: a string is
    truthy when it is present and not empty, an array or object when it is present.
  \<^item> Numbers are exact rationals (\<^typ>\<open>rat\<close>); rounding of IEEE doubles is not modelled.
  \<^item> A date is its time value in milliseconds (\<^typ>\<open>int\<close>), so \<^verbatim>\<open>new Date(d)\<close> is \<open>d\<close>
    and the difference of two dates is a number of milliseconds.  \<^verbatim>\<open>Date.now()\<close> is the
    parameter \<open>now\<close>, read once per call of the modelled function.
  \<^item> A thrown exception is the \<^const>\<open>Inl\<close> branch of a sum.
\<close>

datatype js_error = TypeError | ServiceError

datatype jsval = VStr string | VNum int | VDate int

type_synonym js_object = "(string \<times> jsval) list"

record tag =
  id_tag :: string
  name_tag :: string

record bookmark =
  id_bm :: string
  url :: "string option"
  title :: "string option"
  description :: "string option"
  dateAdded :: "int option"
  dateVisited :: "int option"
  visitCount :: "nat option"
  tags :: "tag list option"
  category :: "string option"
  isBroken :: bool
  meta :: "js_object option"

record scored =
  bookmark :: bookmark
  score :: rat

record merge_payload =
  title_m :: string
  description_m :: string
  tags_m :: "tag list"
  metadata :: js_object

record recommendation =
  keep :: string
  action :: string
  reason :: string
  merge_r :: merge_payload

section \<open>JavaScript library functions used by the source\<close>

definition truthy_str :: "string option \<Rightarrow> bool" where
  "truthy_str s = (case s of None \<Rightarrow> False | Some t \<Rightarrow> t \<noteq> [])"

definition is_space :: "char \<Rightarrow> bool" where
  "is_space c = (c \<in> set [CHR 0x09, CHR 0x0A, CHR 0x0B, CHR 0x0C, CHR 0x0D, CHR '' ''])"

text \<open>\<^verbatim>\<open>String.prototype.trim\<close>, on the white space of ASCII.\<close>

definition js_trim :: "string \<Rightarrow> string" where
  "js_trim s = rev (dropWhile is_space (rev (dropWhile is_space s)))"

text \<open>\<^verbatim>\<open>s && s.trim().length > 0\<close>\<close>

definition nonblank :: "string option \<Rightarrow> bool" where
  "nonblank s = (case s of None \<Rightarrow> False | Some t \<Rightarrow> t \<noteq> [] \<and> 0 < length (js_trim t))"

text \<open>
  \<^verbatim>\<open>Array.prototype.sort(cmp)\<close>: a stable sort (ECMAScript 2019), here by insertion.  An
  element moves in front of the elements it does not compare greater than, so elements that
  compare equal keep their order.
\<close>

fun js_insort :: "('a \<Rightarrow> 'a \<Rightarrow> rat) \<Rightarrow> 'a \<Rightarrow> 'a list \<Rightarrow> 'a list" where
  "js_insort cmp x [] = [x]"
| "js_insort cmp x (y # ys) = (if cmp x y \<le> 0 then x # y # ys else y # js_insort cmp x ys)"

definition js_sort :: "('a \<Rightarrow> 'a \<Rightarrow> rat) \<Rightarrow> 'a list \<Rightarrow> 'a list" where
  "js_sort cmp xs = foldr (js_insort cmp) xs []"

text \<open>\<^verbatim>\<open>Array.prototype.join\<close>\<close>

fun js_join :: "string \<Rightarrow> string list \<Rightarrow> string" where
  "js_join sep [] = []"
| "js_join sep [x] = x"
| "js_join sep (x # y # ys) = x @ sep @ js_join sep (y # ys)"

text \<open>\<^verbatim>\<open>[...new Set(xs)]\<close>: the distinct elements in the order of their first occurrence.\<close>

definition set_add :: "'a list \<Rightarrow> 'a \<Rightarrow> 'a list" where
  "set_add s x = (if x \<in> set s then s else s @ [x])"

definition js_unique :: "'a list \<Rightarrow> 'a list" where
  "js_unique xs = foldl set_add [] xs"

text \<open>\<^verbatim>\<open>Object.assign(target, source)\<close> on objects kept as association lists.\<close>

definition object_assign :: "js_object \<Rightarrow> js_object \<Rightarrow> js_object" where
  "object_assign target source = foldl (\<lambda>m (k, v). AList.update k v m) target source"

text \<open>\<^verbatim>\<open>Object.keys(o).length\<close>\<close>

definition object_keys_length :: "js_object \<Rightarrow> nat" where
  "object_keys_length m = length (remdups (map fst m))"

section \<open>Quality scorer\<close>

definition ms_per_day :: rat where
  "ms_per_day = 1000 * 60 * 60 * 24"

definition days_since :: "int \<Rightarrow> int \<Rightarrow> rat" where
  "days_since now d = of_int (now - d) / ms_per_day"

text \<open>The value of \<^verbatim>\<open>score\<close> before the final \<^verbatim>\<open>Math.max(0, score)\<close>.\<close>

definition rawScore :: "int \<Rightarrow> bookmark \<Rightarrow> rat" where
  "rawScore now b =
     (case title b of
        Some t \<Rightarrow> if nonblank (Some t) then 10 + min (of_nat (length t) / 10) 5 else 0
      | None \<Rightarrow> 0)
   + (case description b of
        Some d \<Rightarrow> if nonblank (Some d) then 8 + min (of_nat (length d) / 20) 4 else 0
      | None \<Rightarrow> 0)
   + (case meta b of Some m \<Rightarrow> of_nat (object_keys_length m) * 2 | None \<Rightarrow> 0)
   + (case dateVisited b of Some d \<Rightarrow> max 0 (20 - days_since now d / 30) | None \<Rightarrow> 0)
   + of_nat (case visitCount b of Some n \<Rightarrow> n | None \<Rightarrow> 0) * (1 / 2)
   + (case tags b of
        Some ts \<Rightarrow> if 0 < length ts then of_nat (length ts) * 3 else 0
      | None \<Rightarrow> 0)
   + (if category b \<noteq> None then 5 else 0)
   + (case dateAdded b of Some d \<Rightarrow> max 0 (15 - days_since now d / 60) | None \<Rightarrow> 0)
   + (case url b of
        Some u \<Rightarrow> if u \<noteq> [] \<and> take 8 u = ''https://'' then 3 else 0
      | None \<Rightarrow> 0)
   - (if isBroken b then 50 else 0)"

definition scoreOf :: "int \<Rightarrow> bookmark \<Rightarrow> rat" where
  "scoreOf now b = max 0 (rawScore now b)"

definition scoreBookmarks :: "int \<Rightarrow> bookmark list \<Rightarrow> scored list" where
  "scoreBookmarks now bookmarks =
     map (\<lambda>b. \<lparr>bookmark = b, score = scoreOf now b\<rparr>) bookmarks"

section \<open>Resolution recommender\<close>

definition determineAction :: "bookmark list \<Rightarrow> string" where
  "determineAction bookmarks =
     (let hasCompleteMetadata =
            list_ex (\<lambda>b. truthy_str (title b) \<and> truthy_str (description b) \<and>
                      (case tags b of Some ts \<Rightarrow> 0 < length ts | None \<Rightarrow> False)) bookmarks
      in if hasCompleteMetadata then ''merge_metadata''
         else if list_ex (\<lambda>b. case title b of
                                  Some t \<Rightarrow> t \<noteq> [] \<and> 20 < length t
                                | None \<Rightarrow> False) bookmarks
           then ''keep_most_descriptive''
         else if list_ex (\<lambda>b. dateVisited b \<noteq> None) bookmarks then ''keep_most_recent''
         else ''keep_first'')"

text \<open>The list \<^verbatim>\<open>reasons\<close> that \<^verbatim>\<open>getActionReason\<close> pushes onto, for the bookmark it inspects.\<close>

definition reasonsOf :: "int \<Rightarrow> bookmark \<Rightarrow> string list" where
  "reasonsOf now b =
     (case title b of
        Some t \<Rightarrow> if t \<noteq> [] \<and> 20 < length t then [''Most descriptive title''] else []
      | None \<Rightarrow> [])
   @ (if truthy_str (description b) then [''Has description''] else [])
   @ (case tags b of
        Some ts \<Rightarrow> if 0 < length ts then [''Most tagged''] else []
      | None \<Rightarrow> [])
   @ (case dateVisited b of
        Some d \<Rightarrow> if days_since now d < 30 then [''Recently visited''] else []
      | None \<Rightarrow> [])
   @ (if category b \<noteq> None then [''Categorized''] else [])"

definition joinReasons :: "string list \<Rightarrow> string" where
  "joinReasons reasons =
     (if 0 < length reasons then js_join '', '' reasons else ''Highest overall quality'')"

text \<open>
  \<^verbatim>\<open>scores[0]\<close> is \<^verbatim>\<open>undefined\<close> for an empty array, and reading \<^verbatim>\<open>best.bookmark\<close>
  throws a TypeError then.
\<close>

definition getActionReason :: "int \<Rightarrow> bookmark list \<Rightarrow> js_error + string" where
  "getActionReason now bookmarks =
     (let scores = scoreBookmarks now bookmarks
      in case scores of
           [] \<Rightarrow> Inl TypeError
         | best # _ \<Rightarrow> Inr (joinReasons (reasonsOf now (bookmark best))))"

definition mergeTitles :: "bookmark list \<Rightarrow> string" where
  "mergeTitles bookmarks =
     (let titles = map the (filter nonblank (map title bookmarks))
      in if length titles = 0 then []
         else hd (js_sort (\<lambda>a b. of_nat (length b) - of_nat (length a)) titles))"

definition mergeDescriptions :: "bookmark list \<Rightarrow> string" where
  "mergeDescriptions bookmarks =
     (let descriptions = map the (filter nonblank (map description bookmarks))
      in if length descriptions = 0 then []
         else js_join '' | '' (js_unique descriptions))"

text \<open>
  The \<^verbatim>\<open>Map\<close> of \<^verbatim>\<open>mergeTags\<close> is an association list in insertion order;
  \<^verbatim>\<open>Array.from(allTags.values())\<close> reads the values in that order.
\<close>

definition addTag :: "(string \<times> tag) list \<Rightarrow> tag \<Rightarrow> (string \<times> tag) list" where
  "addTag allTags t =
     (if map_of allTags (id_tag t) = None then allTags @ [(id_tag t, t)] else allTags)"

definition mergeTags :: "bookmark list \<Rightarrow> tag list" where
  "mergeTags bookmarks =
     map snd (foldl (\<lambda>allTags b. case tags b of
                                    Some ts \<Rightarrow> foldl addTag allTags ts
                                  | None \<Rightarrow> allTags) [] bookmarks)"

definition mergeMetadata :: "bookmark list \<Rightarrow> js_object" where
  "mergeMetadata bookmarks =
     (let merged = foldl (\<lambda>merged b. case meta b of
                                        Some m \<Rightarrow> object_assign merged m
                                      | None \<Rightarrow> merged) [] bookmarks;
          totalVisits = foldl (\<lambda>sum b. sum + (case visitCount b of Some n \<Rightarrow> n | None \<Rightarrow> 0))
                          0 bookmarks;
          merged = AList.update ''totalVisits'' (VNum (int totalVisits)) merged;
          visits = js_sort (\<lambda>a b. of_int (b - a))
                     (map the (filter (\<lambda>date. date \<noteq> None) (map dateVisited bookmarks)))
      in case visits of
           [] \<Rightarrow> merged
         | v # _ \<Rightarrow> AList.update ''lastVisited'' (VDate v) merged)"

definition score_cmp :: "scored \<Rightarrow> scored \<Rightarrow> rat" where
  "score_cmp a b = score b - score a"

definition recommendAction :: "int \<Rightarrow> bookmark list \<Rightarrow> js_error + recommendation" where
  "recommendAction now bookmarks =
     (let scored = js_sort score_cmp (scoreBookmarks now bookmarks)
      in case scored of
           [] \<Rightarrow> Inl TypeError
         | best # others \<Rightarrow>
             (case getActionReason now bookmarks of
                Inl e \<Rightarrow> Inl e
              | Inr r \<Rightarrow>
                  Inr \<lparr>keep = id_bm (bookmark best),
                       action = determineAction bookmarks,
                       reason = r,
                       merge_r = \<lparr>title_m = mergeTitles bookmarks,
                                  description_m = mergeDescriptions bookmarks,
                                  tags_m = mergeTags bookmarks,
                                  metadata = mergeMetadata bookmarks\<rparr>\<rparr>))"

text \<open>A record that has an id and nothing else, as the fixtures of the unit tests write it.\<close>

definition newBookmark :: "string \<Rightarrow> bookmark" where
  "newBookmark i =
     \<lparr>id_bm = i, url = None, title = None, description = None, dateAdded = None,
      dateVisited = None, visitCount = None, tags = None, category = None,
      isBroken = False, meta = None\<rparr>"

section \<open>URL normalizer\<close>

text \<open>
  \<^verbatim>\<open>normalizeUrl\<close> calls two classes of the platform: the \<^verbatim>\<open>URL\<close> constructor, which
  throws a TypeError on a string it cannot parse, and \<^verbatim>\<open>URLSearchParams\<close>.  Neither is
  code of the repository, so both are parameters of the model: \<open>new_URL\<close> returns the four
  properties the source reads, or \<^const>\<open>None\<close> where the constructor throws, and
  \<open>new_URLSearchParams\<close> returns the key/value pairs in iteration order.
\<close>

record url_parts =
  hostname :: string
  pathname :: string
  hash :: string
  search :: string

record platform =
  new_URL :: "string \<Rightarrow> url_parts option"
  new_URLSearchParams :: "string \<Rightarrow> (string \<times> string) list"

definition lower_char :: "char \<Rightarrow> char" where
  "lower_char c =
     (case map_of (zip ''ABCDEFGHIJKLMNOPQRSTUVWXYZ'' ''abcdefghijklmnopqrstuvwxyz'') c of
        Some d \<Rightarrow> d
      | None \<Rightarrow> c)"

text \<open>\<^verbatim>\<open>String.prototype.toLowerCase\<close>, on the letters of ASCII.\<close>

definition toLowerCase :: "string \<Rightarrow> string" where
  "toLowerCase s = map lower_char s"

text \<open>\<^verbatim>\<open>s.replace(/^www\./, '')\<close>\<close>

definition replace_www :: "string \<Rightarrow> string" where
  "replace_www s = (if prefix ''www.'' s then drop 4 s else s)"

text \<open>
  \<^verbatim>\<open>s.replace(/^https?:\/\//, '')\<close>: the expression matches \<^verbatim>\<open>http\<close>, then an optional
  \<^verbatim>\<open>s\<close>, then \<^verbatim>\<open>://\<close>, at the start of the string.
\<close>

definition match_scheme :: "string \<Rightarrow> nat option" where
  "match_scheme s =
     (if prefix ''http'' s
      then (let r = drop 4 s
            in if prefix ''s://'' r then Some 8
               else if prefix ''://'' r then Some 7
               else None)
      else None)"

definition replace_scheme :: "string \<Rightarrow> string" where
  "replace_scheme s = (case match_scheme s of Some n \<Rightarrow> drop n s | None \<Rightarrow> s)"

text \<open>\<^verbatim>\<open>s.replace(/\/$/, '')\<close>\<close>

definition replace_trailing_slash :: "string \<Rightarrow> string" where
  "replace_trailing_slash s = (if s \<noteq> [] \<and> last s = CHR ''/'' then butlast s else s)"

definition trackingParams :: "string list" where
  "trackingParams =
     [''utm_source'', ''utm_medium'', ''utm_campaign'', ''utm_term'', ''utm_content'',
      ''fbclid'', ''gclid'']"

text \<open>The \<^verbatim>\<open>catch\<close> block.\<close>

definition normalizeFallback :: "string \<Rightarrow> string" where
  "normalizeFallback u =
     replace_trailing_slash (replace_www (replace_scheme (toLowerCase u)))"

text \<open>The \<^verbatim>\<open>try\<close> block: \<^const>\<open>Inl\<close> where it throws.\<close>

definition normalizeTry :: "platform \<Rightarrow> string \<Rightarrow> js_error + string" where
  "normalizeTry P u =
     (case new_URL P u of
        None \<Rightarrow> Inl TypeError
      | Some urlObj \<Rightarrow>
          (let normalized = toLowerCase (hostname urlObj);
               normalized = replace_www normalized;
               path = pathname urlObj;
               path = (if 1 < length path \<and> suffix ''/'' path then butlast path else path);
               normalized = normalized @ toLowerCase path;
               normalized = (if hash urlObj \<noteq> [] then normalized @ toLowerCase (hash urlObj)
                             else normalized);
               searchParams = new_URLSearchParams P (search urlObj);
               cleanParams =
                 map (\<lambda>(key, val). key @ ''='' @ val)
                   (filter (\<lambda>(key, val). toLowerCase key \<notin> set trackingParams) searchParams)
           in Inr (if 0 < length cleanParams
                   then normalized @ ''?'' @ js_join ''&'' (sort cleanParams)
                   else normalized)))"

definition normalizeUrl :: "platform \<Rightarrow> string \<Rightarrow> js_error + string" where
  "normalizeUrl P u =
     (case normalizeTry P u of
        Inr normalized \<Rightarrow> Inr normalized
      | Inl e \<Rightarrow> Inr (normalizeFallback u))"

text \<open>
  What section 4.1 of the specification says the fallback returns: the lowercased input
  with a leading \<^verbatim>\<open>http://\<close> or \<^verbatim>\<open>https://\<close> stripped, a leading \<^verbatim>\<open>www.\<close> stripped and a
  trailing \<^verbatim>\<open>/\<close> stripped.
\<close>

definition strip_leading :: "string \<Rightarrow> string \<Rightarrow> string option" where
  "strip_leading p s = (if take (length p) s = p then Some (drop (length p) s) else None)"

definition strip_trailing :: "string \<Rightarrow> string \<Rightarrow> string option" where
  "strip_trailing p s =
     (if length p \<le> length s \<and> drop (length s - length p) s = p
      then Some (take (length s - length p) s) else None)"

definition spec_fallback :: "string \<Rightarrow> string" where
  "spec_fallback u =
     (let s = toLowerCase u;
          s = (case strip_leading ''http://'' s of
                 Some r \<Rightarrow> r
               | None \<Rightarrow> (case strip_leading ''https://'' s of Some r \<Rightarrow> r | None \<Rightarrow> s));
          s = (case strip_leading ''www.'' s of Some r \<Rightarrow> r | None \<Rightarrow> s)
      in case strip_trailing ''/'' s of Some r \<Rightarrow> r | None \<Rightarrow> s)"

subsection \<open>A model of the platform's URL classes\<close>

text \<open>
  To run the normalizer on concrete strings, \<open>std_platform\<close> models the two classes on
  absolute URLs written in ASCII without credentials, percent escapes, dot segments or
  backslashes: a scheme (a letter, then letters, digits, \<^verbatim>\<open>+\<close>, \<^verbatim>\<open>-\<close>, \<^verbatim>\<open>.\<close>) and a colon,
  without which the constructor throws as there is no base URL; for \<^verbatim>\<open>http\<close> and
  \<^verbatim>\<open>https\<close> the slashes, a host that must not be empty, an optional port, the path
  (\<^verbatim>\<open>/\<close> when empty), then the query and the fragment, each of which reads as the empty
  string when it has no characters after its \<^verbatim>\<open>?\<close> or \<^verbatim>\<open>#\<close>.  Other schemes have an
  opaque path and an empty host name.
\<close>

definition is_alpha :: "char \<Rightarrow> bool" where
  "is_alpha c =
     (c \<in> set ''abcdefghijklmnopqrstuvwxyzABCDEFGHIJKLMNOPQRSTUVWXYZ'')"

definition is_digit :: "char \<Rightarrow> bool" where
  "is_digit c = (c \<in> set ''0123456789'')"

definition is_scheme_char :: "char \<Rightarrow> bool" where
  "is_scheme_char c = (is_alpha c \<or> is_digit c \<or> c \<in> set ''+-.'')"

definition std_new_URL :: "string \<Rightarrow> url_parts option" where
  "std_new_URL input =
     (let scheme = takeWhile is_scheme_char input;
          rest = dropWhile is_scheme_char input
      in if scheme = [] \<or> \<not> is_alpha (hd scheme) \<or> \<not> prefix '':'' rest then None
         else
           (let scheme = toLowerCase scheme;
                rest = tl rest;
                fragment = dropWhile (\<lambda>c. c \<noteq> CHR ''#'') rest;
                rest = takeWhile (\<lambda>c. c \<noteq> CHR ''#'') rest;
                query = dropWhile (\<lambda>c. c \<noteq> CHR ''?'') rest;
                rest = takeWhile (\<lambda>c. c \<noteq> CHR ''?'') rest;
                hash_v = (if length fragment \<le> 1 then [] else fragment);
                search_v = (if length query \<le> 1 then [] else query)
            in if scheme \<in> set [''http'', ''https'']
               then
                 (let rest = dropWhile (\<lambda>c. c = CHR ''/'') rest;
                      authority = takeWhile (\<lambda>c. c \<noteq> CHR ''/'') rest;
                      path = dropWhile (\<lambda>c. c \<noteq> CHR ''/'') rest;
                      host = takeWhile (\<lambda>c. c \<noteq> CHR '':'') authority
                  in if host = [] then None
                     else Some \<lparr>hostname = toLowerCase host,
                                pathname = (if path = [] then ''/'' else path),
                                hash = hash_v, search = search_v\<rparr>)
               else Some \<lparr>hostname = [], pathname = rest,
                          hash = hash_v, search = search_v\<rparr>))"

fun split_on :: "char \<Rightarrow> string \<Rightarrow> string list" where
  "split_on c [] = [[]]"
| "split_on c (x # xs) =
     (if x = c then [] # split_on c xs
      else (case split_on c xs of
              y # ys \<Rightarrow> (x # y) # ys
            | [] \<Rightarrow> [[x]]))"

definition std_new_URLSearchParams :: "string \<Rightarrow> (string \<times> string) list" where
  "std_new_URLSearchParams init =
     (let s = (if prefix ''?'' init then tl init else init)
      in map (\<lambda>p. (takeWhile (\<lambda>c. c \<noteq> CHR ''='') p,
                    drop 1 (dropWhile (\<lambda>c. c \<noteq> CHR ''='') p)))
           (filter (\<lambda>p. p \<noteq> []) (split_on CHR ''&'' s)))"

definition std_platform :: platform where
  "std_platform =
     \<lparr>new_URL = std_new_URL, new_URLSearchParams = std_new_URLSearchParams\<rparr>"

section \<open>Duplicate grouper\<close>

record dup_group =
  id_g :: string
  normalizedUrl :: string
  bookmarks_g :: "bookmark list"

definition is_alnum :: "char \<Rightarrow> bool" where
  "is_alnum c = (is_alpha c \<or> is_digit c)"

text \<open>\<^verbatim>\<open>`dup_${normalizedUrl.replace(/[^a-zA-Z0-9]/g, '_')}`\<close>\<close>

definition groupId :: "string \<Rightarrow> string" where
  "groupId n = ''dup_'' @ map (\<lambda>c. if is_alnum c then c else CHR ''_'') n"

text \<open>
  The callback of \<^verbatim>\<open>bookmarks.forEach\<close>.  The \<^verbatim>\<open>Map\<close> \<^verbatim>\<open>urlGroups\<close> is an association
  list in insertion order; pushing onto the array of the group stored under a key leaves the
  key at its place.
\<close>

definition groupStep ::
  "platform \<Rightarrow> (string \<times> dup_group) list \<Rightarrow> bookmark \<Rightarrow> js_error + (string \<times> dup_group) list"
where
  "groupStep P urlGroups b =
     (case url b of
        None \<Rightarrow> Inr urlGroups
      | Some u \<Rightarrow>
          if u = [] then Inr urlGroups
          else
            (case normalizeUrl P u of
               Inl e \<Rightarrow> Inl e
             | Inr n \<Rightarrow>
                 (let urlGroups =
                        (if map_of urlGroups n = None
                         then urlGroups @
                                [(n, \<lparr>id_g = groupId n, normalizedUrl = n, bookmarks_g = []\<rparr>)]
                         else urlGroups)
                  in Inr (map (\<lambda>(k, g). if k = n
                                          then (k, g\<lparr>bookmarks_g := bookmarks_g g @ [b]\<rparr>)
                                          else (k, g)) urlGroups))))"

text \<open>A \<^verbatim>\<open>forEach\<close> whose callback may throw: the first exception ends the loop.\<close>

fun forEach_throwing :: "('s \<Rightarrow> 'a \<Rightarrow> js_error + 's) \<Rightarrow> 's \<Rightarrow> 'a list \<Rightarrow> js_error + 's" where
  "forEach_throwing f s [] = Inr s"
| "forEach_throwing f s (x # xs) =
     (case f s x of Inl e \<Rightarrow> Inl e | Inr s' \<Rightarrow> forEach_throwing f s' xs)"

definition groupDuplicates :: "platform \<Rightarrow> bookmark list \<Rightarrow> js_error + dup_group list" where
  "groupDuplicates P bookmarks =
     (case forEach_throwing (groupStep P) [] bookmarks of
        Inl e \<Rightarrow> Inl e
      | Inr urlGroups \<Rightarrow> Inr (filter (\<lambda>g. 1 < length (bookmarks_g g)) (map snd urlGroups)))"


section \<open>The bookmark service and \<^verbatim>\<open>findAll\<close>\<close>








section \<open>\<^verbatim>\<open>autoResolve\<close>\<close>











section \<open>Fixtures\<close>

text \<open>The two records of the test of \<^verbatim>\<open>recommendAction\<close>; the second was visited at time 0.\<close>

definition fixtureShort :: bookmark where
  "fixtureShort =
     (newBookmark ''1'')\<lparr>title := Some ''Short Title'', description := Some [],
        tags := Some [], visitCount := Some 0\<rparr>"

definition fixtureRich :: bookmark where
  "fixtureRich =
     (newBookmark ''2'')\<lparr>
        title := Some ''This is a very descriptive and detailed title about this bookmark'',
        description := Some ''A comprehensive description of the bookmark content'',
        tags := Some [\<lparr>id_tag = ''t1'', name_tag = ''tag1''\<rparr>,
                      \<lparr>id_tag = ''t2'', name_tag = ''tag2''\<rparr>],
        visitCount := Some 5, dateVisited := Some 0\<rparr>"

text \<open>A record visited 200 times: its score is 100.\<close>

definition fixtureVisited :: bookmark where
  "fixtureVisited = (newBookmark ''1'')\<lparr>visitCount := Some 200\<rparr>"

section \<open>Vocabulary of the grouping claim\<close>

text \<open>
  The key under which the grouper files a record: the normal form of its URL, and none for
  a record that lacks a URL (the property is absent or the empty string).
\<close>

definition keyOf :: "platform \<Rightarrow> bookmark \<Rightarrow> string option" where
  "keyOf P b =
     (case url b of
        None \<Rightarrow> None
      | Some u \<Rightarrow>
          if u = [] then None
          else (case normalizeUrl P u of Inr n \<Rightarrow> Some n | Inl e \<Rightarrow> None))"

text \<open>The records of a list that are filed under a key, in the order of the list.\<close>

definition membersOf :: "platform \<Rightarrow> bookmark list \<Rightarrow> string \<Rightarrow> bookmark list" where
  "membersOf P bookmarks k = filter (\<lambda>b. keyOf P b = Some k) bookmarks"

text \<open>
  The scenario of section 8 of the specification, with a third record whose URL is the
  only one of its normal form and a fourth that has no URL.
\<close>

definition scenario :: "bookmark list" where
  "scenario =
     [(newBookmark ''1'')\<lparr>url := Some ''https://www.a.com/x/''\<rparr>,
      (newBookmark ''2'')\<lparr>url := Some ''http://a.com/x''\<rparr>,
      (newBookmark ''3'')\<lparr>url := Some ''https://b.com/y''\<rparr>,
      newBookmark ''4'']"

text \<open>The first record of the test, with one entry of metadata.\<close>

definition fixtureMeta :: bookmark where
  "fixtureMeta = fixtureShort\<lparr>meta := Some [(''domain'', VStr ''a.com'')]\<rparr>"

section \<open>Vocabulary of the claim on \<^verbatim>\<open>autoResolve\<close>\<close>



section \<open>Properties\<close>

subsection \<open>The sort of the recommender\<close>

lemma js_insort_score_cmp:
  "js_insort score_cmp x ys = insort_key (\<lambda>s. - score s) x ys"
  by (induction ys) (auto simp: score_cmp_def)

lemma js_sort_score_cmp:
  "js_sort score_cmp xs = sort_key (\<lambda>s. - score s) xs"
  by (induction xs) (auto simp: js_sort_def js_insort_score_cmp)

lemma hd_insort_key:
  "hd (insort_key f x ys) = (if ys = [] \<or> f x \<le> f (hd ys) then x else hd ys)"
  by (cases ys) auto

lemma sort_key_eq_Nil: "sort_key f xs = [] \<longleftrightarrow> xs = []"
  by (metis length_sort list.size(3) length_0_conv)

lemma hd_sort_key_split:
  "xs \<noteq> [] \<Longrightarrow>
   \<exists>pre post. xs = pre @ hd (sort_key f xs) # post \<and>
     (\<forall>x\<in>set pre. f (hd (sort_key f xs)) < f x) \<and>
     (\<forall>x\<in>set post. f (hd (sort_key f xs)) \<le> f x)"
proof (induction xs)
  case Nil
  then show ?case by simp
next
  case (Cons x xs)
  show ?case
  proof (cases "xs = []")
    case True
    show ?thesis unfolding True
      by (rule exI [of _ "[]"], rule exI [of _ "[]"]) simp
  next
    case False
    let ?h = "hd (sort_key f xs)"
    from Cons.IH [OF False] obtain pre post where
      xs: "xs = pre @ ?h # post" and
      pre: "\<forall>y\<in>set pre. f ?h < f y" and
      post: "\<forall>y\<in>set post. f ?h \<le> f y"
      by blast
    have ne: "sort_key f xs \<noteq> []" using False by (simp add: sort_key_eq_Nil)
    have hd_eq: "hd (sort_key f (x # xs)) = (if f x \<le> f ?h then x else ?h)"
      using ne by (simp add: hd_insort_key)
    show ?thesis
    proof (cases "f x \<le> f ?h")
      case True
      have "\<forall>y\<in>set xs. f x \<le> f y"
      proof
        fix y assume "y \<in> set xs"
        then have "y \<in> set pre \<or> y = ?h \<or> y \<in> set post"
          by (subst (asm) xs) auto
        then have "f ?h \<le> f y" using pre post by auto
        then show "f x \<le> f y" using True by simp
      qed
      then show ?thesis unfolding hd_eq using True
        by (intro exI [of _ "[]"] exI [of _ xs]) simp
    next
      case False
      then have lt: "f ?h < f x" by simp
      have "x # xs = (x # pre) @ ?h # post" using xs by simp
      moreover have "\<forall>y\<in>set (x # pre). f ?h < f y" using pre lt by simp
      ultimately have "x # xs = (x # pre) @ ?h # post \<and>
          (\<forall>y\<in>set (x # pre). f ?h < f y) \<and> (\<forall>y\<in>set post. f ?h \<le> f y)"
        using post by blast
      then show ?thesis unfolding hd_eq using False
        by (simp only: if_False) (rule exI [of _ "x # pre"], rule exI [of _ post], blast)
    qed
  qed
qed


lemma getActionReason_nonempty:
  "bookmarks \<noteq> [] \<Longrightarrow>
   getActionReason now bookmarks = Inr (joinReasons (reasonsOf now (hd bookmarks)))"
  by (cases bookmarks) (simp_all add: getActionReason_def scoreBookmarks_def)

lemma recommendAction_nonempty:
  assumes "bookmarks \<noteq> []"
  shows "recommendAction now bookmarks =
     Inr \<lparr>keep = id_bm (bookmark (hd (js_sort score_cmp (scoreBookmarks now bookmarks)))),
          action = determineAction bookmarks,
          reason = joinReasons (reasonsOf now (hd bookmarks)),
          merge_r = \<lparr>title_m = mergeTitles bookmarks,
                     description_m = mergeDescriptions bookmarks,
                     tags_m = mergeTags bookmarks,
                     metadata = mergeMetadata bookmarks\<rparr>\<rparr>"
proof -
  have "scoreBookmarks now bookmarks \<noteq> []"
    using assms by (simp add: scoreBookmarks_def)
  then have "js_sort score_cmp (scoreBookmarks now bookmarks) \<noteq> []"
    by (simp add: js_sort_score_cmp sort_key_eq_Nil)
  then obtain best others where
    "js_sort score_cmp (scoreBookmarks now bookmarks) = best # others"
    by (cases "js_sort score_cmp (scoreBookmarks now bookmarks)") auto
  then show ?thesis
    using assms by (simp add: recommendAction_def getActionReason_nonempty)
qed

lemma top_scored_split:
  assumes "bookmarks \<noteq> []"
  shows "\<exists>pre best post.
      bookmarks = pre @ best # post \<and>
      hd (js_sort score_cmp (scoreBookmarks now bookmarks)) =
        \<lparr>bookmark = best, score = scoreOf now best\<rparr> \<and>
      (\<forall>b\<in>set pre. scoreOf now b < scoreOf now best) \<and>
      (\<forall>b\<in>set post. scoreOf now b \<le> scoreOf now best)"
proof -
  let ?g = "\<lambda>b. \<lparr>bookmark = b, score = scoreOf now b\<rparr>"
  let ?f = "\<lambda>s. - score s"
  let ?h = "hd (sort_key ?f (map ?g bookmarks))"
  have "map ?g bookmarks \<noteq> []" using assms by simp
  from hd_sort_key_split [OF this, of ?f] obtain ps qs where
    split: "map ?g bookmarks = ps @ ?h # qs" and
    ps: "\<forall>x\<in>set ps. ?f ?h < ?f x" and
    qs: "\<forall>x\<in>set qs. ?f ?h \<le> ?f x"
    by blast
  from split obtain pre best post where
    bs: "bookmarks = pre @ best # post" and
    pre: "ps = map ?g pre" and best: "?h = ?g best" and post: "qs = map ?g post"
    by (auto simp: map_eq_append_conv map_eq_Cons_conv)
  have "\<forall>b\<in>set pre. scoreOf now b < scoreOf now best"
    using ps unfolding pre best by simp
  moreover have "\<forall>b\<in>set post. scoreOf now b \<le> scoreOf now best"
    using qs unfolding post best by simp
  ultimately show ?thesis
    using bs best by (simp add: js_sort_score_cmp scoreBookmarks_def) blast
qed

lemmas eval_defs =
  recommendAction_def getActionReason_def scoreBookmarks_def scoreOf_def rawScore_def
  newBookmark_def js_sort_def score_cmp_def nonblank_def js_trim_def is_space_def
  object_keys_length_def days_since_def ms_per_day_def



subsection \<open>The action\<close>

text \<open>
  Claim C7.  For a group that is not empty, the action of the recommendation follows the
  priority policy over all members: \<^verbatim>\<open>merge_metadata\<close> if some member has a title that is
  not empty, a description that is not empty and at least one tag; else
  \<^verbatim>\<open>keep_most_descriptive\<close> if some member has a title of more than 20 characters; else
  \<^verbatim>\<open>keep_most_recent\<close> if some member has a \<^verbatim>\<open>dateVisited\<close>; else \<^verbatim>\<open>keep_first\<close>.
\<close>

theorem C7_action_priority:
  assumes "bookmarks \<noteq> []"
  shows "\<exists>r. recommendAction now bookmarks = Inr r \<and>
     action r =
       (if \<exists>b\<in>set bookmarks.
             (\<exists>t. title b = Some t \<and> t \<noteq> []) \<and>
             (\<exists>d. description b = Some d \<and> d \<noteq> []) \<and>
             (\<exists>ts. tags b = Some ts \<and> 1 \<le> length ts)
        then ''merge_metadata''
        else if \<exists>b\<in>set bookmarks. \<exists>t. title b = Some t \<and> 20 < length t
        then ''keep_most_descriptive''
        else if \<exists>b\<in>set bookmarks. dateVisited b \<noteq> None
        then ''keep_most_recent''
        else ''keep_first'')"
proof -
  have c1: "list_ex (\<lambda>b. truthy_str (title b) \<and> truthy_str (description b) \<and>
                      (case tags b of Some ts \<Rightarrow> 0 < length ts | None \<Rightarrow> False)) bookmarks
        \<longleftrightarrow> (\<exists>b\<in>set bookmarks.
             (\<exists>t. title b = Some t \<and> t \<noteq> []) \<and>
             (\<exists>d. description b = Some d \<and> d \<noteq> []) \<and>
             (\<exists>ts. tags b = Some ts \<and> 1 \<le> length ts))"
    unfolding list_ex_iff truthy_str_def
    by (intro bex_cong refl) (auto split: option.splits simp: Suc_le_eq)
  have c2: "list_ex (\<lambda>b. case title b of Some t \<Rightarrow> t \<noteq> [] \<and> 20 < length t | None \<Rightarrow> False)
              bookmarks
        \<longleftrightarrow> (\<exists>b\<in>set bookmarks. \<exists>t. title b = Some t \<and> 20 < length t)"
    unfolding list_ex_iff
    by (intro bex_cong refl) (auto split: option.splits)
  have c3: "list_ex (\<lambda>b. dateVisited b \<noteq> None) bookmarks
        \<longleftrightarrow> (\<exists>b\<in>set bookmarks. dateVisited b \<noteq> None)"
    by (simp add: list_ex_iff)
  show ?thesis
    unfolding recommendAction_nonempty [OF assms]
    by (simp only: determineAction_def Let_def c1 c2 c3 sum.inject recommendation.simps
        simp_thms ex_simps) 
qed

theorem C7_action_priority_witness:
  "[fixtureShort, fixtureRich] \<noteq> [] \<and>
   (\<exists>r. recommendAction 0 [fixtureShort, fixtureRich] = Inr r \<and> action r = ''merge_metadata'')"
proof -
  have h: "[fixtureShort, fixtureRich] \<noteq> []" by simp
  from C7_action_priority [OF h, of 0] obtain r where
    r: "recommendAction 0 [fixtureShort, fixtureRich] = Inr r" and
    a: "action r =
       (if \<exists>b\<in>set [fixtureShort, fixtureRich].
             (\<exists>t. title b = Some t \<and> t \<noteq> []) \<and>
             (\<exists>d. description b = Some d \<and> d \<noteq> []) \<and>
             (\<exists>ts. tags b = Some ts \<and> 1 \<le> length ts)
        then ''merge_metadata''
        else if \<exists>b\<in>set [fixtureShort, fixtureRich]. \<exists>t. title b = Some t \<and> 20 < length t
        then ''keep_most_descriptive''
        else if \<exists>b\<in>set [fixtureShort, fixtureRich]. dateVisited b \<noteq> None
        then ''keep_most_recent''
        else ''keep_first'')"
    by blast
  have "action r = ''merge_metadata''"
    unfolding a by (simp add: fixtureShort_def fixtureRich_def newBookmark_def)
  with r h show ?thesis by simp
qed

subsection \<open>The reason\<close>

text \<open>
  Claim C2.  \<^verbatim>\<open>getActionReason\<close> scores the members again and reads element 0 of the
  scored list, which is not sorted: the reason describes the first member of the group, not
  the top-scored one.  In the group below the second member has the higher score and a
  category, so it is kept and its reason would be \<^verbatim>\<open>Categorized\<close>; the reason returned is
  that of the first member, which has none of the five properties.
\<close>

theorem C2_reason_reads_first_member:
  "\<exists>r. recommendAction 0 [newBookmark ''1'', (newBookmark ''2'')\<lparr>category := Some ''dev''\<rparr>]
          = Inr r \<and>
        keep r = ''2'' \<and> reason r = ''Highest overall quality'' \<and>
        joinReasons (reasonsOf 0 ((newBookmark ''2'')\<lparr>category := Some ''dev''\<rparr>)) = ''Categorized''"
  by (simp add: eval_defs joinReasons_def reasonsOf_def truthy_str_def)

subsection \<open>The scorer\<close>

lemma scoreOf_mono: "rawScore now b \<le> rawScore now b' \<Longrightarrow> scoreOf now b \<le> scoreOf now b'"
  by (simp add: scoreOf_def max.coboundedI2)

lemma rawScore_add_tag:
  "rawScore now b \<le>
   rawScore now (b\<lparr>tags := Some ((case tags b of Some ts \<Rightarrow> ts | None \<Rightarrow> []) @ [t])\<rparr>)"
  by (simp add: rawScore_def split: option.splits)

lemma rawScore_add_description:
  "description b = None \<or> description b = Some [] \<Longrightarrow>
   rawScore now b \<le> rawScore now (b\<lparr>description := Some d\<rparr>)"
  by (auto simp: rawScore_def nonblank_def split: option.splits)

lemma rawScore_visitCount:
  "rawScore now b \<le>
   rawScore now (b\<lparr>visitCount := Some ((case visitCount b of Some n \<Rightarrow> n | None \<Rightarrow> 0) + 1)\<rparr>)"
  by (simp add: rawScore_def split: option.splits)

lemma days_since_antimono: "d \<le> d' \<Longrightarrow> days_since now d' \<le> days_since now d"
  by (simp add: days_since_def ms_per_day_def divide_right_mono)

lemma rawScore_dateVisited:
  assumes "dateVisited b = None \<or> (\<exists>d0. dateVisited b = Some d0 \<and> d0 \<le> d)"
  shows "rawScore now b \<le> rawScore now (b\<lparr>dateVisited := Some d\<rparr>)"
proof -
  have "(case dateVisited b of Some d \<Rightarrow> max 0 (20 - days_since now d / 30) | None \<Rightarrow> 0)
      \<le> max 0 (20 - days_since now d / 30)"
  proof (cases "dateVisited b")
    case None
    then show ?thesis by simp
  next
    case (Some d0)
    with assms have "d0 \<le> d" by simp
    then have "days_since now d \<le> days_since now d0" by (rule days_since_antimono)
    then have "20 - days_since now d0 / 30 \<le> 20 - days_since now d / 30"
      by (simp add: divide_right_mono)
    then have "max 0 (20 - days_since now d0 / 30) \<le> max 0 (20 - days_since now d / 30)"
      by (rule max.mono [OF order_refl])
    then show ?thesis using Some by simp
  qed
  then show ?thesis by (simp add: rawScore_def)
qed

lemma rawScore_broken:
  "\<not> isBroken b \<Longrightarrow> rawScore now (b\<lparr>isBroken := True\<rparr>) = rawScore now b - 50"
  by (simp add: rawScore_def)

text \<open>
  Claim C6, as amended.  Adding a tag, adding a description to a record whose description
  is absent or empty, counting one more visit, and setting \<^verbatim>\<open>dateVisited\<close> on a record that
  has none or an earlier one never decrease the score.  Setting \<^verbatim>\<open>isBroken\<close> on a record
  that is not broken lowers the score before the final clamp by 50, so the new score is
  \<open>max 0 (raw - 50)\<close>: it never exceeds the old score, it is the old score less 50 when the
  old score is at least 50, and it is 0 when the old score is below 50.
\<close>

theorem C6_scorer_monotone_and_broken_penalty:
  "scoreOf now b \<le>
     scoreOf now (b\<lparr>tags := Some ((case tags b of Some ts \<Rightarrow> ts | None \<Rightarrow> []) @ [t])\<rparr>) \<and>
   (description b = None \<or> description b = Some [] \<longrightarrow>
      scoreOf now b \<le> scoreOf now (b\<lparr>description := Some d\<rparr>)) \<and>
   scoreOf now b \<le>
     scoreOf now (b\<lparr>visitCount := Some ((case visitCount b of Some n \<Rightarrow> n | None \<Rightarrow> 0) + 1)\<rparr>) \<and>
   (dateVisited b = None \<or> (\<exists>d0. dateVisited b = Some d0 \<and> d0 \<le> v) \<longrightarrow>
      scoreOf now b \<le> scoreOf now (b\<lparr>dateVisited := Some v\<rparr>)) \<and>
   (\<not> isBroken b \<longrightarrow>
      rawScore now (b\<lparr>isBroken := True\<rparr>) = rawScore now b - 50 \<and>
      scoreOf now (b\<lparr>isBroken := True\<rparr>) = max 0 (rawScore now b - 50) \<and>
      scoreOf now (b\<lparr>isBroken := True\<rparr>) \<le> scoreOf now b \<and>
      (50 \<le> scoreOf now b \<longrightarrow> scoreOf now (b\<lparr>isBroken := True\<rparr>) = scoreOf now b - 50) \<and>
      (scoreOf now b < 50 \<longrightarrow> scoreOf now (b\<lparr>isBroken := True\<rparr>) = 0))"
proof (intro conjI impI)
  show "scoreOf now b \<le>
     scoreOf now (b\<lparr>tags := Some ((case tags b of Some ts \<Rightarrow> ts | None \<Rightarrow> []) @ [t])\<rparr>)"
    by (rule scoreOf_mono [OF rawScore_add_tag])
  show "scoreOf now b \<le> scoreOf now (b\<lparr>description := Some d\<rparr>)"
    if "description b = None \<or> description b = Some []"
    by (rule scoreOf_mono [OF rawScore_add_description [OF that]])
  show "scoreOf now b \<le>
     scoreOf now (b\<lparr>visitCount := Some ((case visitCount b of Some n \<Rightarrow> n | None \<Rightarrow> 0) + 1)\<rparr>)"
    by (rule scoreOf_mono [OF rawScore_visitCount])
  show "scoreOf now b \<le> scoreOf now (b\<lparr>dateVisited := Some v\<rparr>)"
    if "dateVisited b = None \<or> (\<exists>d0. dateVisited b = Some d0 \<and> d0 \<le> v)"
    by (rule scoreOf_mono [OF rawScore_dateVisited [OF that]])
next
  assume nb: "\<not> isBroken b"
  show r: "rawScore now (b\<lparr>isBroken := True\<rparr>) = rawScore now b - 50"
    by (rule rawScore_broken [OF nb])
  show "scoreOf now (b\<lparr>isBroken := True\<rparr>) = max 0 (rawScore now b - 50)"
    by (simp add: scoreOf_def r)
  show "scoreOf now (b\<lparr>isBroken := True\<rparr>) \<le> scoreOf now b"
    by (rule scoreOf_mono) (simp add: r)
  show "scoreOf now (b\<lparr>isBroken := True\<rparr>) = scoreOf now b - 50" if "50 \<le> scoreOf now b"
    using that by (simp add: scoreOf_def r max_def split: if_splits)
  show "scoreOf now (b\<lparr>isBroken := True\<rparr>) = 0" if "scoreOf now b < 50"
    using that by (simp add: scoreOf_def r max_def split: if_splits)
qed

theorem C6_scorer_monotone_and_broken_penalty_witness:
  "description fixtureVisited = None \<and> dateVisited fixtureVisited = None \<and>
   \<not> isBroken fixtureVisited \<and> 50 \<le> scoreOf 0 fixtureVisited \<and>
   scoreOf 0 fixtureVisited \<le> scoreOf 0 (fixtureVisited\<lparr>description := Some ''D''\<rparr>) \<and>
   scoreOf 0 fixtureVisited \<le> scoreOf 0 (fixtureVisited\<lparr>dateVisited := Some 0\<rparr>) \<and>
   scoreOf 0 (fixtureVisited\<lparr>isBroken := True\<rparr>) = scoreOf 0 fixtureVisited - 50 \<and>
   scoreOf 0 (fixtureVisited\<lparr>isBroken := True\<rparr>) = 50"
proof -
  have h: "description fixtureVisited = None" "dateVisited fixtureVisited = None"
    "\<not> isBroken fixtureVisited"
    by (simp_all add: fixtureVisited_def newBookmark_def)
  have s: "scoreOf 0 fixtureVisited = 100"
    by (simp add: fixtureVisited_def eval_defs)
  from C6_scorer_monotone_and_broken_penalty [of 0 fixtureVisited undefined "''D''" 0] h s
  have "scoreOf 0 fixtureVisited \<le> scoreOf 0 (fixtureVisited\<lparr>description := Some ''D''\<rparr>)"
    and "scoreOf 0 fixtureVisited \<le> scoreOf 0 (fixtureVisited\<lparr>dateVisited := Some 0\<rparr>)"
    and "scoreOf 0 (fixtureVisited\<lparr>isBroken := True\<rparr>) = scoreOf 0 fixtureVisited - 50"
    by simp_all
  with h s show ?thesis by simp
qed

text \<open>
  Claim C6 as stated fails: the record that has only an id scores 0, and scores 0 again
  once it is marked broken, so the score neither decreases nor changes by 50.
\<close>

theorem C6_broken_counterexample:
  "\<not> scoreOf 0 ((newBookmark ''1'')\<lparr>isBroken := True\<rparr>) < scoreOf 0 (newBookmark ''1'') \<and>
   scoreOf 0 ((newBookmark ''1'')\<lparr>isBroken := True\<rparr>) \<noteq> scoreOf 0 (newBookmark ''1'') - 50"
  by (simp add: eval_defs)

subsection \<open>The order of the members\<close>

lemma recommend_keep_unique_top:
  assumes b: "b \<in> set bookmarks"
    and top: "\<forall>b'\<in>set bookmarks. scoreOf now b' \<le> scoreOf now b"
    and ties: "\<forall>b'\<in>set bookmarks. scoreOf now b' = scoreOf now b \<longrightarrow> id_bm b' = id_bm b"
  shows "\<exists>r. recommendAction now bookmarks = Inr r \<and> keep r = id_bm b"
proof -
  have ne: "bookmarks \<noteq> []" using b by auto
  from top_scored_split [OF ne, of now] obtain pre best post where
    bs: "bookmarks = pre @ best # post" and
    h: "hd (js_sort score_cmp (scoreBookmarks now bookmarks)) =
        \<lparr>bookmark = best, score = scoreOf now best\<rparr>" and
    pre: "\<forall>b\<in>set pre. scoreOf now b < scoreOf now best" and
    post: "\<forall>b\<in>set post. scoreOf now b \<le> scoreOf now best"
    by blast
  have best_in: "best \<in> set bookmarks" using bs by simp
  have "b \<in> set pre \<or> b = best \<or> b \<in> set post" using b bs by auto
  then have "scoreOf now b \<le> scoreOf now best" using pre post by auto
  moreover have "scoreOf now best \<le> scoreOf now b" using top best_in by blast
  ultimately have "scoreOf now best = scoreOf now b" by simp
  then have "id_bm best = id_bm b" using ties best_in by blast
  then show ?thesis
    unfolding recommendAction_nonempty [OF ne] using h by simp
qed

text \<open>
  Claim C9, as amended.  When one member has a score that no member exceeds, and every
  member of that score has the same id, \<^verbatim>\<open>recommendAction\<close> keeps that id for every
  permutation of the members.
\<close>

theorem C9_keep_same_for_permutations_when_top_is_unique:
  assumes "b \<in> set bookmarks"
    and "\<forall>b'\<in>set bookmarks. scoreOf now b' \<le> scoreOf now b"
    and "\<forall>b'\<in>set bookmarks. scoreOf now b' = scoreOf now b \<longrightarrow> id_bm b' = id_bm b"
    and "mset permuted = mset bookmarks"
  shows "\<exists>r r'. recommendAction now bookmarks = Inr r \<and>
           recommendAction now permuted = Inr r' \<and>
           keep r = id_bm b \<and> keep r' = keep r"
proof -
  have eq: "set permuted = set bookmarks" using assms(4) by (rule mset_eq_setD)
  from recommend_keep_unique_top [OF assms(1-3)] obtain r where
    r: "recommendAction now bookmarks = Inr r" "keep r = id_bm b" by blast
  from recommend_keep_unique_top [of b permuted now] assms(1-3) obtain r' where
    r': "recommendAction now permuted = Inr r'" "keep r' = id_bm b"
    unfolding eq by blast
  from r r' show ?thesis by simp
qed

theorem C9_keep_same_for_permutations_when_top_is_unique_witness:
  "fixtureRich \<in> set [fixtureShort, fixtureRich] \<and>
   scoreOf 0 fixtureShort < scoreOf 0 fixtureRich \<and>
   mset [fixtureRich, fixtureShort] = mset [fixtureShort, fixtureRich] \<and>
   (\<exists>r r'. recommendAction 0 [fixtureShort, fixtureRich] = Inr r \<and>
           recommendAction 0 [fixtureRich, fixtureShort] = Inr r' \<and>
           keep r = ''2'' \<and> keep r' = ''2'')"
proof -
  have s1: "scoreOf 0 fixtureShort = 111 / 10"
    by (simp add: fixtureShort_def eval_defs)
  have s2: "scoreOf 0 fixtureRich = 1081 / 20"
    by (simp add: fixtureRich_def eval_defs)
  have lt: "scoreOf 0 fixtureShort < scoreOf 0 fixtureRich" by (simp add: s1 s2)
  have i: "id_bm fixtureRich = ''2''" by (simp add: fixtureRich_def newBookmark_def)
  have a1: "fixtureRich \<in> set [fixtureShort, fixtureRich]" by simp
  have a2: "\<forall>b'\<in>set [fixtureShort, fixtureRich]. scoreOf 0 b' \<le> scoreOf 0 fixtureRich"
    using lt by simp
  have a3: "\<forall>b'\<in>set [fixtureShort, fixtureRich].
      scoreOf 0 b' = scoreOf 0 fixtureRich \<longrightarrow> id_bm b' = id_bm fixtureRich"
    using lt by simp
  have a4: "mset [fixtureRich, fixtureShort] = mset [fixtureShort, fixtureRich]" by simp
  from C9_keep_same_for_permutations_when_top_is_unique [OF a1 a2 a3 a4]
  show ?thesis using lt a4 i by auto
qed

text \<open>
  Claim C9 as stated fails: two records that have only an id score 0 both, and the sort is
  stable, so each of the two orders keeps its own first member.
\<close>

theorem C9_keep_depends_on_order_counterexample:
  "mset [newBookmark ''2'', newBookmark ''1''] = mset [newBookmark ''1'', newBookmark ''2''] \<and>
   map_sum id keep (recommendAction 0 [newBookmark ''1'', newBookmark ''2'']) = Inr ''1'' \<and>
   map_sum id keep (recommendAction 0 [newBookmark ''2'', newBookmark ''1'']) = Inr ''2''"
  by (simp add: eval_defs)

subsection \<open>The normalizer\<close>

lemma prefix_iff_take: "prefix p s \<longleftrightarrow> take (length p) s = p"
  by (metis append_eq_conv_conj prefix_def append_take_drop_id)

lemma prefix_iff_take_n: "length p = n \<Longrightarrow> prefix p s \<longleftrightarrow> take n s = p"
  using prefix_iff_take [of p s] by simp

lemma prefix_append_drop:
  "length a = n \<Longrightarrow> prefix (a @ b) s \<longleftrightarrow> prefix a s \<and> prefix b (drop n s)"
  by (auto simp: prefix_def)

lemma strip_leading_n:
  "length p = n \<Longrightarrow> strip_leading p s = (if prefix p s then Some (drop n s) else None)"
  using prefix_iff_take [of p s] by (auto simp: strip_leading_def)

lemma match_scheme_cases:
  "match_scheme s =
     (if prefix ''http://'' s then Some 7 else if prefix ''https://'' s then Some 8 else None)"
proof -
  have a: "prefix ''https://'' s \<longleftrightarrow> prefix ''http'' s \<and> prefix ''s://'' (drop 4 s)"
    using prefix_append_drop [of "''http''" 4 "''s://''" s] by simp
  have b: "prefix ''http://'' s \<longleftrightarrow> prefix ''http'' s \<and> prefix ''://'' (drop 4 s)"
    using prefix_append_drop [of "''http''" 4 "''://''" s] by simp
  have c: "\<not> (prefix ''s://'' (drop 4 s) \<and> prefix ''://'' (drop 4 s))"
    by (cases "drop 4 s") auto
  show ?thesis
    unfolding a b using c by (auto simp: match_scheme_def Let_def)
qed

lemma replace_scheme_spec:
  "replace_scheme s =
     (case strip_leading ''http://'' s of
        Some r \<Rightarrow> r
      | None \<Rightarrow> (case strip_leading ''https://'' s of Some r \<Rightarrow> r | None \<Rightarrow> s))"
  using strip_leading_n [of "''http://''" 7 s] strip_leading_n [of "''https://''" 8 s]
  by (simp add: replace_scheme_def match_scheme_cases)

lemma replace_www_spec:
  "replace_www s = (case strip_leading ''www.'' s of Some r \<Rightarrow> r | None \<Rightarrow> s)"
  using strip_leading_n [of "''www.''" 4 s]
  by (simp add: replace_www_def)

lemma suffix_slash_iff: "suffix ''/'' s \<longleftrightarrow> s \<noteq> [] \<and> last s = CHR ''/''"
  by (cases s rule: rev_cases) (auto simp: suffix_def)

lemma replace_trailing_slash_spec:
  "replace_trailing_slash s = (case strip_trailing ''/'' s of Some r \<Rightarrow> r | None \<Rightarrow> s)"
proof (cases s rule: rev_cases)
  case Nil
  then show ?thesis by (simp add: replace_trailing_slash_def strip_trailing_def)
next
  case (snoc ys y)
  then show ?thesis by (auto simp: replace_trailing_slash_def strip_trailing_def)
qed

lemma normalizeFallback_spec: "normalizeFallback u = spec_fallback u"
  by (simp add: normalizeFallback_def spec_fallback_def Let_def replace_scheme_spec
      replace_www_spec replace_trailing_slash_spec)

lemma normalizeUrl_cases:
  "normalizeUrl P u =
     (case new_URL P u of
        None \<Rightarrow> Inr (normalizeFallback u)
      | Some urlObj \<Rightarrow> normalizeTry P u)"
  by (simp add: normalizeUrl_def normalizeTry_def Let_def split: option.splits)

lemma normalizeTry_Some:
  "new_URL P u = Some urlObj \<Longrightarrow> \<exists>n. normalizeTry P u = Inr n"
  by (simp add: normalizeTry_def Let_def)

lemmas norm_defs = normalizeUrl_def normalizeTry_def normalizeFallback_def std_platform_def
  std_new_URL_def std_new_URLSearchParams_def toLowerCase_def lower_char_def replace_www_def
  replace_scheme_def match_scheme_def replace_trailing_slash_def is_scheme_char_def is_alpha_def
  is_digit_def trackingParams_def

text \<open>
  Claim C5.  \<^verbatim>\<open>normalizeUrl\<close> returns a string for every input and every behaviour of
  the platform, it never throws; and where the \<^verbatim>\<open>URL\<close> constructor throws, the string is
  the lowercased input with a leading \<^verbatim>\<open>http://\<close> or \<^verbatim>\<open>https://\<close> stripped, then a leading
  \<^verbatim>\<open>www.\<close> stripped, then a trailing \<^verbatim>\<open>/\<close> stripped.
\<close>

theorem C5_normalize_never_throws:
  "(\<exists>n. normalizeUrl P u = Inr n) \<and>
   (new_URL P u = None \<longrightarrow> normalizeUrl P u = Inr (spec_fallback u))"
proof (cases "new_URL P u")
  case None
  then show ?thesis by (simp add: normalizeUrl_cases normalizeFallback_spec)
next
  case (Some urlObj)
  with normalizeTry_Some [OF Some] show ?thesis by (simp add: normalizeUrl_cases)
qed

theorem C5_normalize_never_throws_witness:
  "new_URL std_platform ''not-a-valid-url'' = None \<and>
   normalizeUrl std_platform ''not-a-valid-url'' = Inr ''not-a-valid-url'' \<and>
   spec_fallback ''WWW.Example.com/'' = ''example.com''"
proof -
  have h: "new_URL std_platform ''not-a-valid-url'' = None"
    by (simp add: norm_defs)
  have "spec_fallback ''not-a-valid-url'' = ''not-a-valid-url''"
    by (simp add: spec_fallback_def strip_leading_def strip_trailing_def toLowerCase_def
        lower_char_def)
  moreover have "spec_fallback ''WWW.Example.com/'' = ''example.com''"
    by (simp add: spec_fallback_def strip_leading_def strip_trailing_def toLowerCase_def
        lower_char_def)
  ultimately show ?thesis
    using h C5_normalize_never_throws [of std_platform "''not-a-valid-url''"] by simp
qed

lemma replace_scheme_if:
  "replace_scheme s =
     (if prefix ''http://'' s then drop 7 s else if prefix ''https://'' s then drop 8 s else s)"
  by (simp add: replace_scheme_def match_scheme_cases)

lemma replace_scheme_shorter:
  "prefix ''http://'' s \<or> prefix ''https://'' s \<Longrightarrow> length (replace_scheme s) < length s"
  by (auto simp: replace_scheme_if dest: prefix_length_le)

lemma replace_scheme_id:
  "\<not> prefix ''http://'' s \<Longrightarrow> \<not> prefix ''https://'' s \<Longrightarrow> replace_scheme s = s"
  by (simp add: replace_scheme_if)

lemma replace_www_shorter: "prefix ''www.'' s \<Longrightarrow> length (replace_www s) < length s"
  by (auto simp: replace_www_def dest: prefix_length_le)

lemma replace_trailing_slash_if:
  "replace_trailing_slash s = (if suffix ''/'' s then butlast s else s)"
  by (simp add: replace_trailing_slash_def suffix_slash_iff)

lemma replace_trailing_slash_shorter:
  "suffix ''/'' s \<Longrightarrow> length (replace_trailing_slash s) < length s"
  by (auto simp: replace_trailing_slash_if suffix_slash_iff)

lemma replace_scheme_le: "length (replace_scheme s) \<le> length s"
  by (simp add: replace_scheme_if)

lemma replace_www_le: "length (replace_www s) \<le> length s"
  by (simp add: replace_www_def)

lemma replace_trailing_slash_le: "length (replace_trailing_slash s) \<le> length s"
  by (simp add: replace_trailing_slash_if)

lemma normalizeFallback_fixed_point:
  "normalizeFallback n = n \<longleftrightarrow>
     toLowerCase n = n \<and> \<not> prefix ''http://'' n \<and> \<not> prefix ''https://'' n \<and>
     \<not> prefix ''www.'' n \<and> \<not> suffix ''/'' n"
proof
  assume "toLowerCase n = n \<and> \<not> prefix ''http://'' n \<and> \<not> prefix ''https://'' n \<and>
     \<not> prefix ''www.'' n \<and> \<not> suffix ''/'' n"
  then show "normalizeFallback n = n"
    by (simp add: normalizeFallback_def replace_scheme_id replace_www_def
        replace_trailing_slash_if)
next
  assume fx: "normalizeFallback n = n"
  let ?l = "toLowerCase n"
  let ?a = "replace_scheme ?l"
  let ?b = "replace_www ?a"
  have len_l: "length ?l = length n" by (simp add: toLowerCase_def)
  have "length (replace_trailing_slash ?b) = length n"
    using fx by (simp add: normalizeFallback_def)
  with replace_trailing_slash_le [of ?b] replace_www_le [of ?a] replace_scheme_le [of ?l] len_l
  have eqs: "length (replace_trailing_slash ?b) = length ?b" "length ?b = length ?a"
    "length ?a = length ?l"
    by linarith+
  have s1: "\<not> prefix ''http://'' ?l \<and> \<not> prefix ''https://'' ?l"
    using replace_scheme_shorter [of ?l] eqs(3) by auto
  then have a: "?a = ?l" by (simp add: replace_scheme_id)
  have s2: "\<not> prefix ''www.'' ?a"
    using replace_www_shorter [of ?a] eqs(2) by auto
  then have b: "?b = ?a" by (simp add: replace_www_def)
  have s3: "\<not> suffix ''/'' ?b"
    using replace_trailing_slash_shorter [of ?b] eqs(1) by auto
  then have c: "replace_trailing_slash ?b = ?b" by (simp add: replace_trailing_slash_if)
  have "?l = n" using fx a b c by (simp add: normalizeFallback_def)
  with s1 s2 s3 a b show "toLowerCase n = n \<and> \<not> prefix ''http://'' n \<and>
     \<not> prefix ''https://'' n \<and> \<not> prefix ''www.'' n \<and> \<not> suffix ''/'' n"
    by simp
qed

text \<open>
  Claim C4, as amended.  Let \<open>n\<close> be the normal form of \<open>u\<close>, and let \<open>n\<close> be a string
  the \<^verbatim>\<open>URL\<close> constructor rejects (as it does a string without a scheme).  Then
  normalizing \<open>n\<close> again returns \<open>n\<close> exactly when \<open>n\<close> is in lower case, does not begin
  with \<^verbatim>\<open>http://\<close>, \<^verbatim>\<open>https://\<close> or \<^verbatim>\<open>www.\<close>, and does not end with \<^verbatim>\<open>/\<close>.
\<close>

theorem C4_normalize_idempotent_on_fixed_points:
  assumes "normalizeUrl P u = Inr n" and "new_URL P n = None"
  shows "normalizeUrl P n = Inr n \<longleftrightarrow>
     toLowerCase n = n \<and> \<not> prefix ''http://'' n \<and> \<not> prefix ''https://'' n \<and>
     \<not> prefix ''www.'' n \<and> \<not> suffix ''/'' n"
  using assms(2) by (simp add: normalizeUrl_cases normalizeFallback_fixed_point)

theorem C4_normalize_idempotent_on_fixed_points_witness:
  "normalizeUrl std_platform ''https://www.github.com/user/repo/'' = Inr ''github.com/user/repo'' \<and>
   new_URL std_platform ''github.com/user/repo'' = None \<and>
   normalizeUrl std_platform ''github.com/user/repo'' = Inr ''github.com/user/repo'' \<and>
   toLowerCase ''github.com/user/repo'' = ''github.com/user/repo'' \<and>
   \<not> prefix ''www.'' ''github.com/user/repo'' \<and> \<not> suffix ''/'' ''github.com/user/repo''"
proof -
  have h1: "normalizeUrl std_platform ''https://www.github.com/user/repo/''
      = Inr ''github.com/user/repo''"
    by (simp add: norm_defs Let_def suffix_slash_iff)
  have h2: "new_URL std_platform ''github.com/user/repo'' = None"
    by (simp add: norm_defs)
  have c: "toLowerCase ''github.com/user/repo'' = ''github.com/user/repo'' \<and>
     \<not> prefix ''http://'' ''github.com/user/repo'' \<and>
     \<not> prefix ''https://'' ''github.com/user/repo'' \<and>
     \<not> prefix ''www.'' ''github.com/user/repo'' \<and> \<not> suffix ''/'' ''github.com/user/repo''"
    by (simp add: toLowerCase_def lower_char_def suffix_slash_iff)
  from C4_normalize_idempotent_on_fixed_points [OF h1 h2] c
  have "normalizeUrl std_platform ''github.com/user/repo'' = Inr ''github.com/user/repo''"
    by blast
  with h1 h2 c show ?thesis by blast
qed

text \<open>
  Claim C4 as stated fails: the path of \<^verbatim>\<open>https://example.com\<close> is the root \<^verbatim>\<open>/\<close>, which
  the normalizer keeps, so the normal form is \<^verbatim>\<open>example.com/\<close>; that string has no scheme,
  the constructor rejects it, and the fallback strips the trailing slash.
\<close>

theorem C4_normalize_not_idempotent_counterexample:
  "normalizeUrl std_platform ''https://example.com'' = Inr ''example.com/'' \<and>
   normalizeUrl std_platform ''example.com/'' = Inr ''example.com''"
  by (simp add: norm_defs)

subsection \<open>The grouper\<close>

lemma js_unique_snoc: "js_unique (xs @ [x]) = set_add (js_unique xs) x"
  by (simp add: js_unique_def)

lemma js_unique_Nil: "js_unique [] = []"
  by (simp add: js_unique_def)

lemma set_js_unique: "set (js_unique xs) = set xs"
  by (induction xs rule: rev_induct) (auto simp: js_unique_snoc js_unique_Nil set_add_def)

lemma distinct_js_unique: "distinct (js_unique xs)"
  by (induction xs rule: rev_induct) (auto simp: js_unique_snoc js_unique_Nil set_add_def)

lemma forEach_throwing_snoc:
  "forEach_throwing f s (xs @ [x]) =
     (case forEach_throwing f s xs of Inl e \<Rightarrow> Inl e | Inr s' \<Rightarrow> f s' x)"
  by (induction xs arbitrary: s) (auto split: sum.splits)

lemma normalizeUrl_total: "\<exists>n. normalizeUrl P u = Inr n"
  using normalizeTry_Some [of P u]
  by (cases "new_URL P u") (auto simp: normalizeUrl_cases)

lemma normalizeUrl_not_Inl: "normalizeUrl P u \<noteq> Inl e"
  using normalizeUrl_total [of P u] by auto

lemma keyOf_None: "keyOf P b = None \<longleftrightarrow> url b = None \<or> url b = Some []"
  by (auto simp: keyOf_def normalizeUrl_not_Inl split: option.splits sum.splits)

lemma set_map_filter: "set (List.map_filter f xs) = {k. \<exists>x\<in>set xs. f x = Some k}"
  by (induction xs) (auto simp: List.map_filter_simps split: option.splits)

lemma keyOf_Some:
  "keyOf P b = Some k \<longleftrightarrow> (\<exists>u. url b = Some u \<and> u \<noteq> [] \<and> normalizeUrl P u = Inr k)"
  by (auto simp: keyOf_def split: option.splits sum.splits)

text \<open>The map of the grouper after the records \<open>bs\<close>.\<close>

lemma groupStep_keyOf:
  "groupStep P m b =
     (case keyOf P b of
        None \<Rightarrow> Inr m
      | Some n \<Rightarrow>
          Inr (map (\<lambda>(k, g). if k = n then (k, g\<lparr>bookmarks_g := bookmarks_g g @ [b]\<rparr>)
                               else (k, g))
                 (if map_of m n = None
                  then m @ [(n, \<lparr>id_g = groupId n, normalizedUrl = n, bookmarks_g = []\<rparr>)]
                  else m)))"
  by (auto simp: groupStep_def keyOf_def Let_def normalizeUrl_not_Inl
      split: option.splits sum.splits)

lemma map_of_groups_None:
  "map_of (map (\<lambda>k. (k, f k)) ks) n = None \<longleftrightarrow> n \<notin> set ks"
  by (induction ks) auto

lemma groups_fold:
  "forEach_throwing (groupStep P) [] bs =
     Inr (map (\<lambda>k. (k, \<lparr>id_g = groupId k, normalizedUrl = k, bookmarks_g = membersOf P bs k\<rparr>))
            (js_unique (List.map_filter (keyOf P) bs)))"
proof (induction bs rule: rev_induct)
  case Nil
  then show ?case by (simp add: js_unique_Nil)
next
  case (snoc b bs)
  let ?ks = "js_unique (List.map_filter (keyOf P) bs)"
  let ?mk = "\<lambda>bs k. (k, \<lparr>id_g = groupId k, normalizedUrl = k, bookmarks_g = membersOf P bs k\<rparr>)"
  have ks_set: "set ?ks = {k. \<exists>b\<in>set bs. keyOf P b = Some k}"
    by (simp add: set_js_unique set_map_filter)
  show ?case
  proof (cases "keyOf P b")
    case None
    have "List.map_filter (keyOf P) (bs @ [b]) = List.map_filter (keyOf P) bs"
      using None by (simp add: List.map_filter_def)
    moreover have "membersOf P (bs @ [b]) = membersOf P bs"
      using None by (simp add: membersOf_def fun_eq_iff)
    ultimately show ?thesis
      using None snoc.IH by (simp add: forEach_throwing_snoc groupStep_keyOf)
  next
    case (Some n)
    have mf: "List.map_filter (keyOf P) (bs @ [b]) = List.map_filter (keyOf P) bs @ [n]"
      using Some by (simp add: List.map_filter_def)
    have mem: "membersOf P (bs @ [b]) k = (if k = n then membersOf P bs k @ [b] else membersOf P bs k)"
      for k
      using Some by (auto simp: membersOf_def)
    show ?thesis
    proof (cases "n \<in> set ?ks")
      case True
      then have ks': "js_unique (List.map_filter (keyOf P) (bs @ [b])) = ?ks"
        by (simp add: mf js_unique_snoc set_add_def)
      show ?thesis
        using Some snoc.IH True
        by (simp add: forEach_throwing_snoc groupStep_keyOf map_of_groups_None ks' mem
            del: map_of_eq_None_iff)
    next
      case False
      then have ks': "js_unique (List.map_filter (keyOf P) (bs @ [b])) = ?ks @ [n]"
        by (simp add: mf js_unique_snoc set_add_def)
      have "membersOf P bs n = []"
        using False unfolding ks_set by (auto simp: membersOf_def filter_empty_conv)
      then show ?thesis
        using Some snoc.IH False
        by (simp add: forEach_throwing_snoc groupStep_keyOf map_of_groups_None ks' mem
            del: map_of_eq_None_iff)
    qed
  qed
qed

lemma groupDuplicates_eq:
  "groupDuplicates P bs =
     Inr (map (\<lambda>k. \<lparr>id_g = groupId k, normalizedUrl = k, bookmarks_g = membersOf P bs k\<rparr>)
            (filter (\<lambda>k. 1 < length (membersOf P bs k))
               (js_unique (List.map_filter (keyOf P) bs))))"
  by (simp add: groupDuplicates_def groups_fold filter_map comp_def)

text \<open>
  Claim C3.  For every list of records \<^verbatim>\<open>groupDuplicates\<close> returns groups with pairwise
  different normalized URLs; each group holds at least two records and exactly the records
  of the list filed under its normalized URL, in the order of the list; every normalized URL
  under which at least two records are filed has a group.  So a record whose normalized URL
  is shared by at least two records is in exactly one group, a record whose normalized URL
  is its own alone is in none, and a record that lacks a URL is in none and is counted in
  none.
\<close>

theorem C3_grouping_complete:
  "\<exists>groups. groupDuplicates P bookmarks = Inr groups \<and>
     distinct (map normalizedUrl groups) \<and>
     (\<forall>g\<in>set groups.
         2 \<le> length (bookmarks_g g) \<and>
         bookmarks_g g = membersOf P bookmarks (normalizedUrl g) \<and>
         id_g g = groupId (normalizedUrl g)) \<and>
     (\<forall>k. 2 \<le> length (membersOf P bookmarks k) \<longrightarrow> (\<exists>g\<in>set groups. normalizedUrl g = k)) \<and>
     (\<forall>b\<in>set bookmarks. \<forall>k. keyOf P b = Some k \<longrightarrow>
         (2 \<le> length (membersOf P bookmarks k) \<longrightarrow>
            (\<exists>!g. g \<in> set groups \<and> b \<in> set (bookmarks_g g))) \<and>
         (length (membersOf P bookmarks k) < 2 \<longrightarrow>
            (\<forall>g\<in>set groups. b \<notin> set (bookmarks_g g)))) \<and>
     (\<forall>b. url b = None \<or> url b = Some [] \<longrightarrow> (\<forall>g\<in>set groups. b \<notin> set (bookmarks_g g)))"
proof -
  let ?G = "\<lambda>k. \<lparr>id_g = groupId k, normalizedUrl = k, bookmarks_g = membersOf P bookmarks k\<rparr>"
  let ?ks = "filter (\<lambda>k. 1 < length (membersOf P bookmarks k))
               (js_unique (List.map_filter (keyOf P) bookmarks))"
  let ?groups = "map ?G ?ks"
  have eq: "groupDuplicates P bookmarks = Inr ?groups" by (rule groupDuplicates_eq)
  have ks: "k \<in> set ?ks \<longleftrightarrow> 2 \<le> length (membersOf P bookmarks k)" for k
  proof -
    have "membersOf P bookmarks k \<noteq> [] \<Longrightarrow> \<exists>b\<in>set bookmarks. keyOf P b = Some k"
      by (auto simp: membersOf_def filter_empty_conv)
    then have "2 \<le> length (membersOf P bookmarks k) \<Longrightarrow> \<exists>b\<in>set bookmarks. keyOf P b = Some k"
      by (cases "membersOf P bookmarks k") auto
    then show ?thesis
      by (auto simp: set_js_unique set_map_filter)
  qed
  have in_groups': "g \<in> set ?groups \<longleftrightarrow> (\<exists>k. 2 \<le> length (membersOf P bookmarks k) \<and> g = ?G k)"
    for g
    unfolding set_map image_iff Bex_def ks by blast
  have in_groups: "g \<in> set ?groups \<longleftrightarrow>
      g = ?G (normalizedUrl g) \<and> 2 \<le> length (membersOf P bookmarks (normalizedUrl g))" for g
  proof
    assume "g \<in> set ?groups"
    then obtain k where "2 \<le> length (membersOf P bookmarks k)" "g = ?G k"
      unfolding in_groups' by blast
    then show "g = ?G (normalizedUrl g) \<and>
        2 \<le> length (membersOf P bookmarks (normalizedUrl g))"
      by simp
  next
    assume "g = ?G (normalizedUrl g) \<and>
        2 \<le> length (membersOf P bookmarks (normalizedUrl g))"
    then show "g \<in> set ?groups" unfolding in_groups' by blast
  qed
  have mem: "b \<in> set (membersOf P bookmarks k) \<longleftrightarrow> b \<in> set bookmarks \<and> keyOf P b = Some k" for b k
    by (auto simp: membersOf_def)
  have d: "distinct (map normalizedUrl ?groups)"
    by (simp add: comp_def distinct_js_unique)
  have g1: "\<forall>g\<in>set ?groups.
         2 \<le> length (bookmarks_g g) \<and>
         bookmarks_g g = membersOf P bookmarks (normalizedUrl g) \<and>
         id_g g = groupId (normalizedUrl g)"
  proof
    fix g assume "g \<in> set ?groups"
    then obtain k where "2 \<le> length (membersOf P bookmarks k)" "g = ?G k"
      unfolding in_groups' by blast
    then show "2 \<le> length (bookmarks_g g) \<and>
         bookmarks_g g = membersOf P bookmarks (normalizedUrl g) \<and>
         id_g g = groupId (normalizedUrl g)"
      by simp
  qed
  have g2: "\<forall>k. 2 \<le> length (membersOf P bookmarks k) \<longrightarrow> (\<exists>g\<in>set ?groups. normalizedUrl g = k)"
  proof (intro allI impI)
    fix k assume "2 \<le> length (membersOf P bookmarks k)"
    then have "?G k \<in> set ?groups" unfolding in_groups' by blast
    moreover have "normalizedUrl (?G k) = k" by simp
    ultimately show "\<exists>g\<in>set ?groups. normalizedUrl g = k" by blast
  qed
  have g3: "\<forall>b\<in>set bookmarks. \<forall>k. keyOf P b = Some k \<longrightarrow>
         (2 \<le> length (membersOf P bookmarks k) \<longrightarrow>
            (\<exists>!g. g \<in> set ?groups \<and> b \<in> set (bookmarks_g g))) \<and>
         (length (membersOf P bookmarks k) < 2 \<longrightarrow>
            (\<forall>g\<in>set ?groups. b \<notin> set (bookmarks_g g)))"
  proof (intro ballI allI impI conjI)
    fix b k
    assume b: "b \<in> set bookmarks" and k: "keyOf P b = Some k"
    have only: "normalizedUrl g = k \<and> g = ?G k"
      if "g \<in> set ?groups" "b \<in> set (bookmarks_g g)" for g
    proof -
      from that(1) have g: "g = ?G (normalizedUrl g)" by (simp only: in_groups)
      then have "bookmarks_g g = membersOf P bookmarks (normalizedUrl g)"
        by (metis dup_group.select_convs(3))
      with that(2) k have "normalizedUrl g = k" by (simp add: mem)
      with g show ?thesis by simp
    qed
    {
      assume two: "2 \<le> length (membersOf P bookmarks k)"
      have "?G k \<in> set ?groups" using two ks [of k] by simp
      moreover have "b \<in> set (bookmarks_g (?G k))" using b k by (simp add: mem)
      ultimately show "\<exists>!g. g \<in> set ?groups \<and> b \<in> set (bookmarks_g g)"
        using only by blast
    }
    {
      fix g
      assume less: "length (membersOf P bookmarks k) < 2" and g: "g \<in> set ?groups"
      show "b \<notin> set (bookmarks_g g)"
      proof
        assume "b \<in> set (bookmarks_g g)"
        with only [OF g] have "normalizedUrl g = k" by simp
        with g less show False by (simp only: in_groups) simp
      qed
    }
  qed
  have g4: "\<forall>b. url b = None \<or> url b = Some [] \<longrightarrow> (\<forall>g\<in>set ?groups. b \<notin> set (bookmarks_g g))"
  proof (intro allI impI ballI)
    fix b :: bookmark and g
    assume "url b = None \<or> url b = Some []" and g: "g \<in> set ?groups"
    then have "keyOf P b = None" by (simp add: keyOf_None)
    moreover have "bookmarks_g g = membersOf P bookmarks (normalizedUrl g)"
      using g g1 by blast
    ultimately show "b \<notin> set (bookmarks_g g)" by (simp add: mem)
  qed
  show ?thesis
    by (rule exI [of _ ?groups], intro conjI) (rule eq d g1 g2 g3 g4)+
qed

lemma scenario_norm:
  "normalizeUrl std_platform ''https://www.a.com/x/'' = Inr ''a.com/x''"
  "normalizeUrl std_platform ''http://a.com/x'' = Inr ''a.com/x''"
  "normalizeUrl std_platform ''https://b.com/y'' = Inr ''b.com/y''"
  by (simp_all add: norm_defs Let_def suffix_slash_iff)

lemma scenario_groups:
  "groupDuplicates std_platform scenario =
     Inr [\<lparr>id_g = ''dup_a_com_x'', normalizedUrl = ''a.com/x'',
           bookmarks_g = [(newBookmark ''1'')\<lparr>url := Some ''https://www.a.com/x/''\<rparr>,
                          (newBookmark ''2'')\<lparr>url := Some ''http://a.com/x''\<rparr>]\<rparr>]"
  by (simp add: scenario_def groupDuplicates_def groupStep_def scenario_norm newBookmark_def
      groupId_def is_alnum_def is_alpha_def is_digit_def)

theorem C3_grouping_complete_witness:
  "(newBookmark ''1'')\<lparr>url := Some ''https://www.a.com/x/''\<rparr> \<in> set scenario \<and>
   keyOf std_platform ((newBookmark ''1'')\<lparr>url := Some ''https://www.a.com/x/''\<rparr>)
     = Some ''a.com/x'' \<and>
   2 \<le> length (membersOf std_platform scenario ''a.com/x'') \<and>
   url (newBookmark ''4'') = None \<and>
   (\<exists>groups. groupDuplicates std_platform scenario = Inr groups \<and>
      (\<exists>!g. g \<in> set groups \<and>
         (newBookmark ''1'')\<lparr>url := Some ''https://www.a.com/x/''\<rparr> \<in> set (bookmarks_g g)) \<and>
      (\<forall>g\<in>set groups. newBookmark ''4'' \<notin> set (bookmarks_g g)) \<and>
      map normalizedUrl groups = [''a.com/x''])"
proof -
  let ?b = "(newBookmark ''1'')\<lparr>url := Some ''https://www.a.com/x/''\<rparr>"
  have h1: "?b \<in> set scenario" by (simp add: scenario_def)
  have h2: "keyOf std_platform ?b = Some ''a.com/x''"
    by (simp add: keyOf_def newBookmark_def scenario_norm)
  have h3: "2 \<le> length (membersOf std_platform scenario ''a.com/x'')"
    by (simp add: membersOf_def scenario_def keyOf_def newBookmark_def scenario_norm)
  have h4: "url (newBookmark ''4'') = None" by (simp add: newBookmark_def)
  from C3_grouping_complete [of std_platform scenario] obtain groups where
    g: "groupDuplicates std_platform scenario = Inr groups" and
    a: "\<forall>b\<in>set scenario. \<forall>k. keyOf std_platform b = Some k \<longrightarrow>
         (2 \<le> length (membersOf std_platform scenario k) \<longrightarrow>
            (\<exists>!g. g \<in> set groups \<and> b \<in> set (bookmarks_g g))) \<and>
         (length (membersOf std_platform scenario k) < 2 \<longrightarrow>
            (\<forall>g\<in>set groups. b \<notin> set (bookmarks_g g)))" and
    n: "\<forall>b. url b = None \<or> url b = Some [] \<longrightarrow> (\<forall>g\<in>set groups. b \<notin> set (bookmarks_g g))"
    by blast
  from a h1 h2 h3 have u: "\<exists>!g. g \<in> set groups \<and> ?b \<in> set (bookmarks_g g)" by blast
  from n h4 have v: "\<forall>g\<in>set groups. newBookmark ''4'' \<notin> set (bookmarks_g g)" by blast
  have w: "map normalizedUrl groups = [''a.com/x'']"
    using g unfolding scenario_groups by auto
  have "\<exists>groups. groupDuplicates std_platform scenario = Inr groups \<and>
      (\<exists>!g. g \<in> set groups \<and> ?b \<in> set (bookmarks_g g)) \<and>
      (\<forall>g\<in>set groups. newBookmark ''4'' \<notin> set (bookmarks_g g)) \<and>
      map normalizedUrl groups = [''a.com/x'']"
  proof (intro exI conjI)
    show "groupDuplicates std_platform scenario = Inr groups" by (rule g)
    show "\<exists>!g. g \<in> set groups \<and> ?b \<in> set (bookmarks_g g)" by (rule u)
    show "\<forall>g\<in>set groups. newBookmark ''4'' \<notin> set (bookmarks_g g)" by (rule v)
    show "map normalizedUrl groups = [''a.com/x'']" by (rule w)
  qed
  with h1 h2 h3 h4 show ?thesis by (intro conjI)
qed

subsection \<open>The merge payload\<close>

lemma js_insort_by_key:
  "js_insort (\<lambda>a b. f b - f a) x ys = insort_key (\<lambda>s. - f s) x ys"
  by (induction ys) auto

lemma js_sort_by_key:
  "js_sort (\<lambda>a b. f b - f a) xs = sort_key (\<lambda>s. - f s) xs"
  by (induction xs) (auto simp: js_sort_def js_insort_by_key)

lemma hd_js_sort_descending:
  assumes "xs \<noteq> []"
  shows "\<exists>pre post. xs = pre @ hd (js_sort (\<lambda>a b. f b - f a) xs) # post \<and>
     (\<forall>x\<in>set pre. f x < f (hd (js_sort (\<lambda>a b. f b - f a) xs))) \<and>
     (\<forall>x\<in>set post. f x \<le> f (hd (js_sort (\<lambda>a b. f b - f a) xs)))"
  using hd_sort_key_split [OF assms, of "\<lambda>s. - f s"]
  by (simp add: js_sort_by_key)

lemma exists_after_dropWhile:
  "(\<exists>x\<in>set (dropWhile P xs). \<not> P x) \<longleftrightarrow> (\<exists>x\<in>set xs. \<not> P x)"
  by (induction xs) auto

lemma js_trim_nonempty: "js_trim t \<noteq> [] \<longleftrightarrow> (\<exists>c\<in>set t. \<not> is_space c)"
proof -
  have "js_trim t \<noteq> [] \<longleftrightarrow> (\<exists>x\<in>set (rev (dropWhile is_space t)). \<not> is_space x)"
    unfolding js_trim_def by (simp add: dropWhile_eq_Nil_conv del: set_rev)
  also have "\<dots> \<longleftrightarrow> (\<exists>c\<in>set t. \<not> is_space c)"
    by (simp add: exists_after_dropWhile)
  finally show ?thesis .
qed

lemma nonblank_iff: "nonblank s \<longleftrightarrow> (\<exists>t. s = Some t \<and> (\<exists>c\<in>set t. \<not> is_space c))"
  by (cases s) (auto simp: nonblank_def js_trim_nonempty)

lemma nonblank_strings:
  "map the (filter nonblank (map f bs)) =
     filter (\<lambda>t. \<exists>c\<in>set t. \<not> is_space c) (List.map_filter f bs)"
  by (induction bs) (auto simp: List.map_filter_simps nonblank_iff split: option.splits)

lemma mergeTitles_spec:
  "mergeTitles bs =
     (let titles = filter (\<lambda>t. \<exists>c\<in>set t. \<not> is_space c) (List.map_filter title bs)
      in if titles = [] then []
         else hd (js_sort (\<lambda>a b. of_nat (length b) - of_nat (length a)) titles))"
  by (simp add: mergeTitles_def nonblank_strings Let_def)

lemma js_unique_first_seen: "js_unique xs = rev (remdups (rev xs))"
  by (induction xs rule: rev_induct)
    (auto simp: js_unique_snoc js_unique_Nil set_add_def set_js_unique)

lemma mergeDescriptions_spec:
  "mergeDescriptions bs =
     js_join '' | ''
       (rev (remdups (rev (filter (\<lambda>t. \<exists>c\<in>set t. \<not> is_space c)
                             (List.map_filter description bs)))))"
  by (simp add: mergeDescriptions_def nonblank_strings Let_def js_unique_first_seen)

lemma find_snoc:
  "find Q (xs @ [x]) = (case find Q xs of Some y \<Rightarrow> Some y | None \<Rightarrow> if Q x then Some x else None)"
  by (induction xs) auto

lemma find_None_ids: "find (\<lambda>t. f t = k) xs = None \<longleftrightarrow> k \<notin> set (map f xs)"
  by (induction xs) auto

lemma addTag_fold:
  "foldl addTag [] ts =
     map (\<lambda>k. (k, the (find (\<lambda>t. id_tag t = k) ts))) (js_unique (map id_tag ts))"
proof (induction ts rule: rev_induct)
  case Nil
  then show ?case by (simp add: js_unique_Nil)
next
  case (snoc t ts)
  let ?ks = "js_unique (map id_tag ts)"
  have old: "the (find (\<lambda>t'. id_tag t' = k) (ts @ [t])) = the (find (\<lambda>t'. id_tag t' = k) ts)"
    if "k \<in> set ?ks" for k
  proof -
    from that have "k \<in> set (map id_tag ts)" by (simp only: set_js_unique)
    then have "find (\<lambda>t'. id_tag t' = k) ts \<noteq> None" by (simp only: find_None_ids) simp
    then show ?thesis by (auto simp: find_snoc)
  qed
  show ?case
  proof (cases "id_tag t \<in> set ?ks")
    case True
    then have "js_unique (map id_tag ts @ [id_tag t]) = ?ks"
      by (simp add: js_unique_snoc set_add_def)
    then show ?thesis
      using True snoc.IH old
      by (simp add: addTag_def map_of_groups_None del: map_of_eq_None_iff)
  next
    case False
    then have ks': "js_unique (map id_tag ts @ [id_tag t]) = ?ks @ [id_tag t]"
      by (simp add: js_unique_snoc set_add_def)
    have "find (\<lambda>t'. id_tag t' = id_tag t) ts = None"
      using False by (simp only: find_None_ids set_js_unique) simp
    then have new: "the (find (\<lambda>t'. id_tag t' = id_tag t) (ts @ [t])) = t"
      by (simp add: find_snoc)
    show ?thesis
      using False snoc.IH old new
      by (simp add: addTag_def map_of_groups_None ks' del: map_of_eq_None_iff)
  qed
qed

lemma mergeTags_fold:
  "foldl (\<lambda>allTags b. case tags b of Some ts \<Rightarrow> foldl addTag allTags ts | None \<Rightarrow> allTags) m bs =
   foldl addTag m (concat (map (\<lambda>b. case tags b of Some ts \<Rightarrow> ts | None \<Rightarrow> []) bs))"
  by (induction bs arbitrary: m) (auto split: option.splits)

lemma mergeTags_spec:
  "mergeTags bs =
     (let every = concat (map (\<lambda>b. case tags b of Some ts \<Rightarrow> ts | None \<Rightarrow> []) bs)
      in map (\<lambda>k. the (find (\<lambda>t. id_tag t = k) every)) (js_unique (map id_tag every)))"
  by (simp add: mergeTags_def mergeTags_fold addTag_fold Let_def comp_def)

lemma mergeTags_ids:
  "map id_tag (mergeTags bs) =
     rev (remdups (rev (map id_tag
       (concat (map (\<lambda>b. case tags b of Some ts \<Rightarrow> ts | None \<Rightarrow> []) bs)))))"
proof -
  let ?every = "concat (map (\<lambda>b. case tags b of Some ts \<Rightarrow> ts | None \<Rightarrow> []) bs)"
  have "id_tag (the (find (\<lambda>t. id_tag t = k) ?every)) = k"
    if "k \<in> set (js_unique (map id_tag ?every))" for k
  proof -
    from that have "k \<in> set (map id_tag ?every)" by (simp only: set_js_unique)
    then obtain t where "find (\<lambda>t. id_tag t = k) ?every = Some t"
      using find_None_ids [of id_tag k ?every] by (cases "find (\<lambda>t. id_tag t = k) ?every") auto
    then show ?thesis by (auto dest: find_Some_iff [THEN iffD1])
  qed
  then have "map id_tag (mergeTags bs) = js_unique (map id_tag ?every)"
    unfolding mergeTags_spec Let_def by (simp add: map_idI comp_def)
  then show ?thesis by (simp only: js_unique_first_seen)
qed

lemma mergeTags_first:
  assumes "t \<in> set (mergeTags bs)"
  shows "find (\<lambda>t'. id_tag t' = id_tag t)
           (concat (map (\<lambda>b. case tags b of Some ts \<Rightarrow> ts | None \<Rightarrow> []) bs)) = Some t"
proof -
  let ?every = "concat (map (\<lambda>b. case tags b of Some ts \<Rightarrow> ts | None \<Rightarrow> []) bs)"
  from assms obtain k where k: "k \<in> set (js_unique (map id_tag ?every))"
    and t: "t = the (find (\<lambda>t. id_tag t = k) ?every)"
    unfolding mergeTags_spec Let_def by auto
  from k have "k \<in> set (map id_tag ?every)" by (simp only: set_js_unique)
  then obtain t' where f: "find (\<lambda>t. id_tag t = k) ?every = Some t'"
    using find_None_ids [of id_tag k ?every] by (cases "find (\<lambda>t. id_tag t = k) ?every") auto
  then have "id_tag t' = k" by (auto dest: find_Some_iff [THEN iffD1])
  with f t show ?thesis by simp
qed

lemma map_of_object_assign:
  "distinct (map fst source) \<Longrightarrow>
   map_of (object_assign target source) = map_of target ++ map_of source"
proof (induction source arbitrary: target)
  case Nil
  then show ?case by (simp add: object_assign_def)
next
  case (Cons p source)
  obtain k v where p: "p = (k, v)" by (cases p)
  from Cons.prems have d: "distinct (map fst source)" and k: "k \<notin> dom (map_of source)"
    by (auto simp: p dom_map_of_conv_image_fst)
  have "map_of (object_assign target (p # source)) =
      map_of (object_assign (AList.update k v target) source)"
    by (simp add: object_assign_def p)
  also have "\<dots> = (map_of target)(k \<mapsto> v) ++ map_of source"
    by (simp only: Cons.IH [OF d] update_conv')
  also have "\<dots> = map_of target ++ map_of (p # source)"
    using k by (simp add: p map_add_upd_left)
  finally show ?case .
qed

lemma merged_fold:
  assumes "\<forall>b\<in>set bs. \<forall>m. meta b = Some m \<longrightarrow> distinct (map fst m)"
  shows "map_of (foldl (\<lambda>merged b. case meta b of Some m \<Rightarrow> object_assign merged m
                                      | None \<Rightarrow> merged) acc bs) =
     foldl (\<lambda>f b. f ++ (case meta b of Some m \<Rightarrow> map_of m | None \<Rightarrow> Map.empty))
       (map_of acc) bs"
  using assms
  by (induction bs arbitrary: acc) (auto simp: map_of_object_assign split: option.splits)

lemma totalVisits_fold:
  "foldl (\<lambda>sum b. sum + g b) (a::nat) bs = a + sum_list (map g bs)"
  by (induction bs arbitrary: a) auto

lemma date_cmp: "(\<lambda>a b. rat_of_int (b - a)) = (\<lambda>a b. rat_of_int b - rat_of_int a)"
  by (simp add: fun_eq_iff)

lemma hd_visits:
  assumes "ds \<noteq> []"
  shows "hd (js_sort (\<lambda>a b. of_int (b - a)) ds) = Max (set ds)"
proof -
  let ?h = "hd (js_sort (\<lambda>a b. rat_of_int b - rat_of_int a) ds)"
  from hd_js_sort_descending [OF assms, of rat_of_int] obtain pre post where
    ds: "ds = pre @ ?h # post" and
    pre: "\<forall>x\<in>set pre. rat_of_int x < rat_of_int ?h" and
    post: "\<forall>x\<in>set post. rat_of_int x \<le> rat_of_int ?h"
    by blast
  have "?h \<in> set ds" by (subst (2) ds) simp
  moreover have "x \<le> ?h" if "x \<in> set ds" for x
  proof -
    from that have "x \<in> set pre \<or> x = ?h \<or> x \<in> set post" by (subst (asm) ds) auto
    then show ?thesis using pre post by auto
  qed
  ultimately have "Max (set ds) = ?h" by (intro Max_eqI) auto
  then show ?thesis by (simp add: date_cmp)
qed

lemma visits_dates:
  "map the (filter (\<lambda>date. date \<noteq> None) (map f bs)) = List.map_filter f bs"
  by (induction bs) (auto simp: List.map_filter_simps split: option.splits)

lemma mergeMetadata_unfold:
  "mergeMetadata bs =
     (case js_sort (\<lambda>a b. of_int (b - a)) (List.map_filter dateVisited bs) of
        [] \<Rightarrow>
          AList.update ''totalVisits''
            (VNum (int (foldl (\<lambda>sum b. sum + (case visitCount b of Some n \<Rightarrow> n | None \<Rightarrow> 0))
                          0 bs)))
            (foldl (\<lambda>merged b. case meta b of Some m \<Rightarrow> object_assign merged m
                                | None \<Rightarrow> merged) [] bs)
      | v # vs \<Rightarrow>
          AList.update ''lastVisited'' (VDate v)
            (AList.update ''totalVisits''
               (VNum (int (foldl (\<lambda>sum b. sum + (case visitCount b of Some n \<Rightarrow> n | None \<Rightarrow> 0))
                             0 bs)))
               (foldl (\<lambda>merged b. case meta b of Some m \<Rightarrow> object_assign merged m
                                   | None \<Rightarrow> merged) [] bs)))"
  by (simp only: mergeMetadata_def Let_def visits_dates)

lemma mergeMetadata_spec:
  assumes "\<forall>b\<in>set bs. \<forall>m. meta b = Some m \<longrightarrow> distinct (map fst m)"
  shows "map_of (mergeMetadata bs) =
     (let merged = foldl (\<lambda>f b. f ++ (case meta b of Some m \<Rightarrow> map_of m | None \<Rightarrow> Map.empty))
                     Map.empty bs;
          total = sum_list (map (\<lambda>b. case visitCount b of Some n \<Rightarrow> n | None \<Rightarrow> 0) bs);
          dates = List.map_filter dateVisited bs
      in if dates = [] then merged(''totalVisits'' \<mapsto> VNum (int total))
         else merged(''totalVisits'' \<mapsto> VNum (int total),
                     ''lastVisited'' \<mapsto> VDate (Max (set dates))))"
proof (cases "List.map_filter dateVisited bs")
  case Nil
  then show ?thesis
    using merged_fold [OF assms, of "[]"]
    by (simp add: mergeMetadata_unfold Let_def js_sort_def update_conv' totalVisits_fold)
next
  case (Cons d ds)
  then have ne: "List.map_filter dateVisited bs \<noteq> []" by simp
  from Cons have "js_sort (\<lambda>a b. rat_of_int (b - a)) (List.map_filter dateVisited bs) \<noteq> []"
    by (simp add: date_cmp js_sort_by_key sort_key_eq_Nil)
  then obtain v vs where
    s: "js_sort (\<lambda>a b. rat_of_int (b - a)) (List.map_filter dateVisited bs) = v # vs"
    by (cases "js_sort (\<lambda>a b. rat_of_int (b - a)) (List.map_filter dateVisited bs)") auto
  with hd_visits [OF ne] have v: "v = Max (set (List.map_filter dateVisited bs))" by simp
  show ?thesis
    unfolding mergeMetadata_unfold s
    using merged_fold [OF assms, of "[]"] ne v
    by (simp add: Let_def update_conv' totalVisits_fold)
qed

text \<open>
  Claim C8, as amended.  Call a string blank when all its characters are white space.  For
  a group that is not empty, and whose \<^verbatim>\<open>meta\<close> objects have each key once, the merge
  payload of the recommendation has:
  \<^item> as title, the first of the longest among the members' titles that are not blank, and
    the empty string when there is none;
  \<^item> as description, the members' descriptions that are not blank, each once, in the order
    of their first occurrence, joined with \<^verbatim>\<open>" | "\<close>;
  \<^item> as tags, for each tag id among the members' tags, in the order of first occurrence,
    the first tag of that id;
  \<^item> as metadata, the members' \<^verbatim>\<open>meta\<close> maps merged from left to right, a later member
    overwriting the keys of an earlier one, then \<^verbatim>\<open>totalVisits\<close> set to the sum of the visit
    counts (0 for a member without one), then \<^verbatim>\<open>lastVisited\<close> set to the latest
    \<^verbatim>\<open>dateVisited\<close> when some member has one, and left as the merge has it otherwise.
\<close>

theorem C8_merge_payload:
  assumes "bookmarks \<noteq> []"
    and "\<forall>b\<in>set bookmarks. \<forall>m. meta b = Some m \<longrightarrow> distinct (map fst m)"
  shows "\<exists>r. recommendAction now bookmarks = Inr r \<and>
     (let titles = filter (\<lambda>t. \<exists>c\<in>set t. \<not> is_space c) (List.map_filter title bookmarks);
          longest = title_m (merge_r r)
      in if titles = [] then longest = []
         else \<exists>pre post. titles = pre @ longest # post \<and>
                (\<forall>t\<in>set pre. length t < length longest) \<and>
                (\<forall>t\<in>set post. length t \<le> length longest)) \<and>
     description_m (merge_r r) =
       js_join '' | ''
         (rev (remdups (rev (filter (\<lambda>t. \<exists>c\<in>set t. \<not> is_space c)
                               (List.map_filter description bookmarks))))) \<and>
     (let every = concat (map (\<lambda>b. case tags b of Some ts \<Rightarrow> ts | None \<Rightarrow> []) bookmarks)
      in map id_tag (tags_m (merge_r r)) = rev (remdups (rev (map id_tag every))) \<and>
         (\<forall>t\<in>set (tags_m (merge_r r)). find (\<lambda>t'. id_tag t' = id_tag t) every = Some t)) \<and>
     map_of (metadata (merge_r r)) =
       (let merged = foldl (\<lambda>f b. f ++ (case meta b of Some m \<Rightarrow> map_of m | None \<Rightarrow> Map.empty))
                       Map.empty bookmarks;
            total = sum_list (map (\<lambda>b. case visitCount b of Some n \<Rightarrow> n | None \<Rightarrow> 0) bookmarks);
            dates = List.map_filter dateVisited bookmarks
        in if dates = [] then merged(''totalVisits'' \<mapsto> VNum (int total))
           else merged(''totalVisits'' \<mapsto> VNum (int total),
                       ''lastVisited'' \<mapsto> VDate (Max (set dates))))"
proof -
  let ?titles = "filter (\<lambda>t. \<exists>c\<in>set t. \<not> is_space c) (List.map_filter title bookmarks)"
  have t: "if ?titles = [] then mergeTitles bookmarks = []
         else \<exists>pre post. ?titles = pre @ mergeTitles bookmarks # post \<and>
                (\<forall>t\<in>set pre. length t < length (mergeTitles bookmarks)) \<and>
                (\<forall>t\<in>set post. length t \<le> length (mergeTitles bookmarks))"
  proof (cases "?titles = []")
    case True
    then show ?thesis by (simp add: mergeTitles_spec)
  next
    case False
    from hd_js_sort_descending [OF False, of "\<lambda>t. rat_of_nat (length t)"] False
    show ?thesis by (simp add: mergeTitles_spec Let_def)
  qed
  have g: "let every = concat (map (\<lambda>b. case tags b of Some ts \<Rightarrow> ts | None \<Rightarrow> []) bookmarks)
      in map id_tag (mergeTags bookmarks) = rev (remdups (rev (map id_tag every))) \<and>
         (\<forall>t\<in>set (mergeTags bookmarks). find (\<lambda>t'. id_tag t' = id_tag t) every = Some t)"
    unfolding Let_def using mergeTags_ids [of bookmarks] mergeTags_first [of _ bookmarks]
    by blast
  show ?thesis
    unfolding recommendAction_nonempty [OF assms(1)]
    using t g mergeDescriptions_spec [of bookmarks] mergeMetadata_spec [OF assms(2)]
    by (simp add: Let_def)
qed

theorem C8_merge_payload_witness:
  "[fixtureMeta, fixtureRich] \<noteq> [] \<and>
   distinct (map fst [(''domain'', VStr ''a.com'')]) \<and>
   (\<exists>r. recommendAction 0 [fixtureMeta, fixtureRich] = Inr r \<and>
      title_m (merge_r r) = ''This is a very descriptive and detailed title about this bookmark'' \<and>
      description_m (merge_r r) = ''A comprehensive description of the bookmark content'' \<and>
      map id_tag (tags_m (merge_r r)) = [''t1'', ''t2''] \<and>
      map_of (metadata (merge_r r)) ''domain'' = Some (VStr ''a.com'') \<and>
      map_of (metadata (merge_r r)) ''totalVisits'' = Some (VNum 5) \<and>
      map_of (metadata (merge_r r)) ''lastVisited'' = Some (VDate 0))"
proof -
  have h1: "[fixtureMeta, fixtureRich] \<noteq> []" by simp
  have h2: "\<forall>b\<in>set [fixtureMeta, fixtureRich]. \<forall>m. meta b = Some m \<longrightarrow> distinct (map fst m)"
    by (auto simp: fixtureMeta_def fixtureRich_def fixtureShort_def newBookmark_def)
  from C8_merge_payload [OF h1 h2, of 0] obtain r where
    r: "recommendAction 0 [fixtureMeta, fixtureRich] = Inr r"
    by blast
  have e: "recommendAction 0 [fixtureMeta, fixtureRich] =
     Inr \<lparr>keep = id_bm (bookmark (hd (js_sort score_cmp
                  (scoreBookmarks 0 [fixtureMeta, fixtureRich])))),
          action = determineAction [fixtureMeta, fixtureRich],
          reason = joinReasons (reasonsOf 0 (hd [fixtureMeta, fixtureRich])),
          merge_r = \<lparr>title_m = mergeTitles [fixtureMeta, fixtureRich],
                     description_m = mergeDescriptions [fixtureMeta, fixtureRich],
                     tags_m = mergeTags [fixtureMeta, fixtureRich],
                     metadata = mergeMetadata [fixtureMeta, fixtureRich]\<rparr>\<rparr>"
    by (rule recommendAction_nonempty [OF h1])
  have t: "mergeTitles [fixtureMeta, fixtureRich] =
      ''This is a very descriptive and detailed title about this bookmark''"
    by (simp add: mergeTitles_def fixtureMeta_def fixtureRich_def fixtureShort_def
        newBookmark_def nonblank_def js_trim_def is_space_def js_sort_def)
  have d: "mergeDescriptions [fixtureMeta, fixtureRich] =
      ''A comprehensive description of the bookmark content''"
    by (simp add: mergeDescriptions_def fixtureMeta_def fixtureRich_def fixtureShort_def
        newBookmark_def nonblank_def js_trim_def is_space_def js_unique_def set_add_def)
  have g: "map id_tag (mergeTags [fixtureMeta, fixtureRich]) = [''t1'', ''t2'']"
    by (simp add: mergeTags_def addTag_def fixtureMeta_def fixtureRich_def fixtureShort_def
        newBookmark_def)
  have m: "mergeMetadata [fixtureMeta, fixtureRich] =
      [(''domain'', VStr ''a.com''), (''totalVisits'', VNum 5), (''lastVisited'', VDate 0)]"
    by (simp add: mergeMetadata_def object_assign_def fixtureMeta_def fixtureRich_def
        fixtureShort_def newBookmark_def js_sort_def)
  from r e have "merge_r r = \<lparr>title_m = mergeTitles [fixtureMeta, fixtureRich],
                     description_m = mergeDescriptions [fixtureMeta, fixtureRich],
                     tags_m = mergeTags [fixtureMeta, fixtureRich],
                     metadata = mergeMetadata [fixtureMeta, fixtureRich]\<rparr>"
    by auto
  with r t d g m h1 show ?thesis by simp
qed

text \<open>
  Claim C8 as stated fails twice.  A title of three spaces is not empty and is the longest
  title of the first group, and the merged title is the shorter \<^verbatim>\<open>a\<close>: the filter of
  \<^verbatim>\<open>mergeTitles\<close> drops the titles that are blank.  No member of the second group has a
  \<^verbatim>\<open>dateVisited\<close>, and the merged metadata has a \<^verbatim>\<open>lastVisited\<close>: that of the first
  member's \<^verbatim>\<open>meta\<close>.
\<close>

theorem C8_merge_payload_counterexample:
  "map_sum id (\<lambda>r. title_m (merge_r r))
     (recommendAction 0 [(newBookmark ''1'')\<lparr>title := Some ''   ''\<rparr>,
                         (newBookmark ''2'')\<lparr>title := Some ''a''\<rparr>]) = Inr ''a'' \<and>
   length ''a'' < length ''   '' \<and>
   map_sum id (\<lambda>r. map_of (metadata (merge_r r)) ''lastVisited'')
     (recommendAction 0 [(newBookmark ''1'')\<lparr>meta := Some [(''lastVisited'', VStr ''x'')]\<rparr>,
                         newBookmark ''2'']) = Inr (Some (VStr ''x''))"
  by (simp add: eval_defs mergeTitles_def mergeMetadata_def object_assign_def)

subsection \<open>\<^verbatim>\<open>autoResolve\<close>\<close>

















end
